theory Spec2Isabelle
  imports Main "HOL-Library.Word"
begin

section \<open>Object model\<close>

text \<open>
  A non-null handle (\<open>Type::Handle<T>\<close>) is the address of the object it points to; a
  nullable handle is an \<open>addr option\<close>, \<open>None\<close> being \<open>Type::Null\<close>. Object identity
  (\<open>Object_API::equals\<close>, \<open>this == obj.get()\<close>) is equality of addresses. String handles
  are taken non-null and a \<open>String\<close> is its sequence of characters.
\<close>

type_synonym addr = nat

subsection \<open>Throwables\<close>

text \<open>
  Thrown objects are handles of the classes \<open>Throwable\<close>, \<open>Error\<close>, \<open>Exception\<close>, ...; a
  \<open>catch (C e)\<close> clause matches a thrown handle whose class is \<open>C\<close> or derives from it.
  In the string, filter and tracker code a thrown object is given by its class. The
  registry prints the objects it catches; the record \<open>thrown\<close> below adds what printing
  depends on.
\<close>

datatype jclass =
    Throwable | Error | Exception | RuntimeException
  | NullPointerException | IllegalStateException | IllegalArgumentException
  | IndexOutOfBoundsException | ArrayIndexOutOfBoundsException
  | UnsupportedOperationException | InvalidSyntaxException
  | NoSuchElementException | ArithmeticException | AssertionFailedError

type_synonym throwable = jclass

fun extends :: "jclass \<Rightarrow> jclass option" where
  "extends Throwable = None"
| "extends Error = Some Throwable"
| "extends Exception = Some Throwable"
| "extends RuntimeException = Some Exception"
| "extends NullPointerException = Some RuntimeException"
| "extends IllegalStateException = Some RuntimeException"
| "extends IllegalArgumentException = Some RuntimeException"
| "extends IndexOutOfBoundsException = Some RuntimeException"
| "extends ArrayIndexOutOfBoundsException = Some IndexOutOfBoundsException"
| "extends UnsupportedOperationException = Some RuntimeException"
| "extends InvalidSyntaxException = Some Exception"
| "extends NoSuchElementException = Some RuntimeException"
| "extends ArithmeticException = Some RuntimeException"
| "extends AssertionFailedError = Some RuntimeException"

fun depth :: "jclass \<Rightarrow> nat" where
  "depth Throwable = 0"
| "depth Error = 1"
| "depth Exception = 1"
| "depth RuntimeException = 2"
| "depth InvalidSyntaxException = 2"
| "depth ArrayIndexOutOfBoundsException = 4"
| "depth _ = 3"

function instanceOf :: "jclass \<Rightarrow> jclass \<Rightarrow> bool" where
  "instanceOf c d =
     (c = d \<or> (case extends c of None \<Rightarrow> False | Some p \<Rightarrow> instanceOf p d))"
  by pat_completeness auto
termination
  apply (relation "measure (\<lambda>(c, d). depth c)")
   apply simp
  subgoal for c d p by (cases c) auto
  done

declare instanceOf.simps [simp del]

subsection \<open>Strings (\<open>String_API\<close>)\<close>

function startsWith_loop :: "string \<Rightarrow> string \<Rightarrow> nat \<Rightarrow> nat \<Rightarrow> bool" where
  "startsWith_loop this prefix offset i =
     (if i < length prefix
      then (if this ! (i + offset) \<noteq> prefix ! i then False
            else startsWith_loop this prefix offset (i + 1))
      else True)"
  by pat_completeness auto
termination
  by (relation "measure (\<lambda>(this, prefix, offset, i). length prefix - i)") auto

declare startsWith_loop.simps [simp del]

definition startsWith :: "string \<Rightarrow> string \<Rightarrow> nat \<Rightarrow> bool" where
  "startsWith this prefix offset =
     (if length prefix + offset > length this then False
      else startsWith_loop this prefix offset 0)"

definition substring :: "string \<Rightarrow> int \<Rightarrow> int \<Rightarrow> throwable + string" where
  "substring this beginIndex endIndex =
     (if beginIndex < 0 then Inl IndexOutOfBoundsException
      else if endIndex > int (length this) then Inl IndexOutOfBoundsException
      else if beginIndex > endIndex then Inl IndexOutOfBoundsException
      else Inr (take (nat (endIndex - beginIndex)) (drop (nat beginIndex) this)))"

definition OBJECTCLASS :: string where
  "OBJECTCLASS = ''objectClass''"

subsection \<open>Service references and filters\<close>

record ServiceReferenceImpl =
  r_bundle :: "addr option"
  r_serviceName :: string
  r_service :: "addr option"

record FilterImpl =
  f_className :: string
  f_filterString :: string

text \<open>The constructor \<open>FilterImpl_API(String const& filterString)\<close>.\<close>

definition new_FilterImpl :: "string \<Rightarrow> throwable + FilterImpl" where
  "new_FilterImpl filterString =
     (if \<not> startsWith filterString OBJECTCLASS 1 then Inl UnsupportedOperationException
      else (let classNameStartIndex = int (length OBJECTCLASS) + 2 in
            case substring filterString classNameStartIndex (int (length filterString) - 1) of
              Inl e \<Rightarrow> Inl e
            | Inr className \<Rightarrow>
                Inr \<lparr>f_className = className, f_filterString = filterString\<rparr>))"

definition match :: "FilterImpl \<Rightarrow> ServiceReferenceImpl \<Rightarrow> bool" where
  "match f sri = (r_serviceName sri = f_className f)"

section \<open>Service tracker\<close>

record ServiceEvent =
  getType :: int
  getServiceReference :: addr

definition REGISTERED :: int where "REGISTERED = 1"
definition MODIFIED :: int where "MODIFIED = 2"
definition UNREGISTERING :: int where "UNREGISTERING = 4"

text \<open>
  The tracker's mutable state: the \<open>FastMap\<close> from service reference to service object (a
  mapping with unique keys; a key may be mapped to \<open>Type::Null\<close>), the cached service and
  the tracking count (\<open>Type::int32\<close>). \<open>t_world\<close> is everything else the customizer's code
  can read and write. The \<open>synchronized\<close> blocks take a recursive mutex and have no effect
  on a single thread.
\<close>

record 'w ServiceTracker =
  t_trackedServices :: "addr \<rightharpoonup> addr option"
  t_cachedService :: "addr option"
  t_trackingCount :: "32 word"
  t_world :: 'w

text \<open>
  A call either does not return (\<open>None\<close>), or returns normally or by a thrown object,
  with the state it leaves behind.
\<close>

type_synonym ('w, 'a) tracked =
  "'w ServiceTracker \<Rightarrow> ((throwable + 'a) \<times> 'w ServiceTracker) option"

text \<open>\<open>ServiceTrackerCustomizer_API\<close>: caller-supplied code.\<close>

record 'w ServiceTrackerCustomizer =
  addingService :: "addr \<Rightarrow> ('w, addr option) tracked"
  modifiedService :: "addr \<Rightarrow> addr option \<Rightarrow> ('w, unit) tracked"
  removedService :: "addr \<Rightarrow> addr option \<Rightarrow> ('w, unit) tracked"

text \<open>\<open>ServiceTracker_API::getService(ServiceReference)\<close>: \<open>FastMap::get\<close>, null for a missing key.\<close>

definition getService :: "'w ServiceTracker \<Rightarrow> addr \<Rightarrow> addr option" where
  "getService t serviceReference =
     (case t_trackedServices t serviceReference of None \<Rightarrow> None | Some service \<Rightarrow> service)"

text \<open>\<open>ServiceTracker_API::ServiceListenerImpl::serviceChanged\<close>.\<close>

definition ServiceListenerImpl_serviceChanged ::
  "'w ServiceTrackerCustomizer \<Rightarrow> ServiceEvent \<Rightarrow> ('w, unit) tracked" where
  "ServiceListenerImpl_serviceChanged customizer serviceEvent t =
     (let serviceReference = getServiceReference serviceEvent in
      if getType serviceEvent = REGISTERED then
        (case addingService customizer serviceReference t of
           None \<Rightarrow> None
         | Some (Inl e, t') \<Rightarrow> Some (Inl e, t')
         | Some (Inr service, t') \<Rightarrow>
             Some (Inr (),
               t'\<lparr>t_trackedServices := (t_trackedServices t')(serviceReference \<mapsto> service),
                  t_cachedService := service,
                  t_trackingCount := t_trackingCount t' + 1\<rparr>))
      else if getType serviceEvent = MODIFIED then
        (let t1 = t\<lparr>t_cachedService := None, t_trackingCount := t_trackingCount t + 1\<rparr>
         in modifiedService customizer serviceReference (getService t1 serviceReference) t1)
      else if getType serviceEvent = UNREGISTERING then
        (let t1 = t\<lparr>t_trackedServices := (t_trackedServices t)(serviceReference := None),
                     t_cachedService := None,
                     t_trackingCount := t_trackingCount t + 1\<rparr>
         in removedService customizer serviceReference (getService t1 serviceReference) t1)
      else Some (Inl RuntimeException, t))"

subsection \<open>A customizer that records its calls\<close>

text \<open>
  Each call is recorded with its arguments and with the mapping entry of the reference
  as the customizer sees it at the time of the call.
\<close>

datatype callback =
    AddingService addr "addr option option"
  | ModifiedService addr "addr option" "addr option option"
  | RemovedService addr "addr option" "addr option option"

definition recorder :: "addr option \<Rightarrow> callback list ServiceTrackerCustomizer" where
  "recorder service =
     \<lparr>addingService = (\<lambda>r t.
        Some (Inr service, t\<lparr>t_world := t_world t @ [AddingService r (t_trackedServices t r)]\<rparr>)),
      modifiedService = (\<lambda>r s t.
        Some (Inr (), t\<lparr>t_world := t_world t @ [ModifiedService r s (t_trackedServices t r)]\<rparr>)),
      removedService = (\<lambda>r s t.
        Some (Inr (), t\<lparr>t_world := t_world t @ [RemovedService r s (t_trackedServices t r)]\<rparr>))\<rparr>"

definition opened :: "callback list ServiceTracker" where
  "opened = \<lparr>t_trackedServices = Map.empty, t_cachedService = None, t_trackingCount = 0,
             t_world = []\<rparr>"

definition tracking :: "callback list ServiceTracker" where
  "tracking = \<lparr>t_trackedServices = [7 \<mapsto> Some 42], t_cachedService = Some 42,
               t_trackingCount = 1, t_world = []\<rparr>"

section \<open>Bundles and the registry\<close>

subsection \<open>Thrown objects\<close>

text \<open>
  A thrown object, as the registry's code meets it. \<open>handle_class\<close> is the class of the
  handle in the \<open>throw\<close> expression, which decides the \<open>catch\<close> clause that takes it;
  \<open>object_class\<close> is the class of the object the handle points to, and \<open>has_message\<close>
  tells whether the object was constructed with a message (\<open>getMessage()\<close> is not
  \<open>Type::Null\<close>; every \<open>newInstance\<close> has \<open>Type::Null\<close> as the default message). The
  text of a message is not modelled, and a thrown handle is taken not to be null.
\<close>

record thrown =
  handle_class :: jclass
  object_class :: jclass
  has_message :: bool

text \<open>\<open>C_API::newInstance(message)\<close>, thrown as it is returned.\<close>

definition newInstance :: "jclass \<Rightarrow> bool \<Rightarrow> thrown" where
  "newInstance c message = \<lparr>handle_class = c, object_class = c, has_message = message\<rparr>"

text \<open>
  \<open>ArrayIndexOutOfBoundsException_API\<close> and \<open>InvalidSyntaxException_API\<close> derive from
  their parent class by \<open>virtual\<close> inheritance, while the constructor of the handle class
  converts the pointer by a C cast at a place where the \<open>_API\<close> class is only declared.
  The handle of such an object does not point to the \<open>Throwable_API\<close> part of the
  object: throwing and catching pass the handle on, and whatever reads the object through
  it (\<open>toString()\<close>, \<open>getMessage()\<close>) has no defined behaviour.
\<close>

definition malformed :: "jclass \<Rightarrow> bool" where
  "malformed c = (c = ArrayIndexOutOfBoundsException \<or> c = InvalidSyntaxException)"

subsection \<open>State\<close>

definition UNINSTALLED :: int where "UNINSTALLED = 1"
definition INSTALLED :: int where "INSTALLED = 2"
definition RESOLVED :: int where "RESOLVED = 4"
definition STARTING :: int where "STARTING = 8"
definition STOPPING :: int where "STOPPING = 16"
definition ACTIVE :: int where "ACTIVE = 32"

text \<open>
  \<open>BundleImpl_API\<close>. The three \<open>FastTable\<close>s are sequences; a listener handle and a
  filter string stored in them may be null. \<open>_osgi\<close> is the one registry of the model.
\<close>

record BundleImpl =
  b_symbolicName :: string
  b_activator :: "addr option"
  b_state :: int
  b_serviceReferences :: "addr list"
  b_serviceListeners :: "addr option list"
  b_serviceListenerFilters :: "string option list"
  b_context :: "addr option"

record BundleContextImpl =
  c_bundle :: addr

record ServiceRegistrationImpl =
  g_serviceReference :: addr

text \<open>
  The registry \<open>OSGiImpl_API\<close> with the objects reachable from it: \<open>bundles\<close> is the
  table \<open>_bundles\<close>; \<open>bundleAt\<close>, \<open>referenceAt\<close> and \<open>contextAt\<close> give the fields of the
  object at an address, \<open>new\<close> takes the address \<open>allocated\<close> and increments it.
  \<open>isErrorEnabled\<close> is the flag of that name in \<open>Logging.cpp\<close> (initially true, written
  by \<open>Logging_API::setLogErrorEnabled\<close>), \<open>logged\<close> collects the thrown objects that
  \<open>Logging_API::error\<close> has printed at the registry's boundary, \<open>user\<close> is the state of
  the caller-supplied code.
\<close>

record 'u OSGiImpl =
  bundles :: "addr list"
  bundleAt :: "addr \<Rightarrow> BundleImpl"
  referenceAt :: "addr \<Rightarrow> ServiceReferenceImpl"
  contextAt :: "addr \<Rightarrow> BundleContextImpl"
  allocated :: addr
  isErrorEnabled :: bool
  logged :: "thrown list"
  user :: 'u

text \<open>
  A call either does not return (\<open>None\<close>), or returns normally (\<open>Inr\<close>) or by a thrown
  object (\<open>Inl\<close>), with the state it leaves behind.
\<close>

type_synonym ('u, 'a) call = "'u OSGiImpl \<Rightarrow> ((thrown + 'a) \<times> 'u OSGiImpl) option"

text \<open>
  Caller-supplied code: \<open>ServiceListener_API::serviceChanged\<close> of the listener at an
  address, and \<open>BundleActivator_API::start\<close> and \<open>stop\<close> of the activator at an
  address, called with a bundle context handle.
\<close>

type_synonym 'u ServiceListener = "addr \<Rightarrow> ServiceEvent \<Rightarrow> ('u, unit) call"

record 'u BundleActivator =
  activator_start :: "addr \<Rightarrow> addr option \<Rightarrow> ('u, unit) call"
  activator_stop :: "addr \<Rightarrow> addr option \<Rightarrow> ('u, unit) call"

definition bundle_upd :: "addr \<Rightarrow> (BundleImpl \<Rightarrow> BundleImpl) \<Rightarrow> 'u OSGiImpl \<Rightarrow> 'u OSGiImpl" where
  "bundle_upd b f s = s\<lparr>bundleAt := (bundleAt s)(b := f (bundleAt s b))\<rparr>"

definition reference_upd ::
  "addr \<Rightarrow> (ServiceReferenceImpl \<Rightarrow> ServiceReferenceImpl) \<Rightarrow> 'u OSGiImpl \<Rightarrow> 'u OSGiImpl" where
  "reference_upd r f s = s\<lparr>referenceAt := (referenceAt s)(r := f (referenceAt s r))\<rparr>"

subsection \<open>\<open>FastTable\<close>\<close>

text \<open>
  \<open>get\<close> throws for an index at or beyond the size; a negative index reaches the
  bounds-checked array underneath. Both exceptions are constructed with a message; the
  callers below throw them on as \<open>newInstance e True\<close>.
\<close>

definition FastTable_get :: "'a list \<Rightarrow> int \<Rightarrow> throwable + 'a" where
  "FastTable_get elements index =
     (if index \<ge> int (length elements) then Inl IndexOutOfBoundsException
      else if index < 0 then Inl ArrayIndexOutOfBoundsException
      else Inr (elements ! nat index))"

definition FastTable_remove :: "'a list \<Rightarrow> int \<Rightarrow> throwable + 'a list" where
  "FastTable_remove elements index =
     (case FastTable_get elements index of
        Inl e \<Rightarrow> Inl e
      | Inr previous \<Rightarrow> Inr (take (nat index) elements @ drop (nat index + 1) elements))"

fun indexOf_from :: "'a list \<Rightarrow> 'a \<Rightarrow> int \<Rightarrow> int" where
  "indexOf_from [] obj i = -1"
| "indexOf_from (x # xs) obj i = (if obj = x then i else indexOf_from xs obj (i + 1))"

definition FastTable_indexOf :: "'a list \<Rightarrow> 'a \<Rightarrow> int" where
  "FastTable_indexOf elements obj = indexOf_from elements obj 0"

subsection \<open>The registry: lookup and event delivery\<close>

fun find_bundle :: "(addr \<Rightarrow> BundleImpl) \<Rightarrow> string \<Rightarrow> addr list \<Rightarrow> addr option" where
  "find_bundle h symbolicName [] = None"
| "find_bundle h symbolicName (bundle # rest) =
     (if b_symbolicName (h bundle) = symbolicName then Some bundle
      else find_bundle h symbolicName rest)"

definition getBundle :: "string \<Rightarrow> 'u OSGiImpl \<Rightarrow> addr option" where
  "getBundle symbolicName s = find_bundle (bundleAt s) symbolicName (bundles s)"

text \<open>
  The inner loop of \<open>fireServiceEvent\<close> over the listener filters of one bundle. The
  size and the tables are read again at each step, after the listener's code has run.
  \<open>operator->\<close> on a null handle throws \<open>NullPointerException\<close> with the message
  \<open>Null Handle.\<close>
\<close>

partial_function (option) fire_listeners ::
  "'u ServiceListener \<Rightarrow> ServiceEvent \<Rightarrow> string \<Rightarrow> addr \<Rightarrow> nat \<Rightarrow> ('u, unit) call" where
  [code]: "fire_listeners L serviceEvent canonical bundle j s =
     (if j < length (b_serviceListenerFilters (bundleAt s bundle)) then
        (if Some canonical = b_serviceListenerFilters (bundleAt s bundle) ! j then
           (case FastTable_get (b_serviceListeners (bundleAt s bundle)) (int j) of
              Inl e \<Rightarrow> Some (Inl (newInstance e True), s)
            | Inr None \<Rightarrow> Some (Inl (newInstance NullPointerException True), s)
            | Inr (Some listener) \<Rightarrow>
                (case L listener serviceEvent s of
                   None \<Rightarrow> None
                 | Some (Inl e, s') \<Rightarrow> Some (Inl e, s')
                 | Some (Inr u, s') \<Rightarrow>
                     fire_listeners L serviceEvent canonical bundle (j + 1) s'))
         else fire_listeners L serviceEvent canonical bundle (j + 1) s)
      else Some (Inr (), s))"

text \<open>The outer loop over the registry's bundles.\<close>

partial_function (option) fire_bundles ::
  "'u ServiceListener \<Rightarrow> ServiceEvent \<Rightarrow> string \<Rightarrow> nat \<Rightarrow> ('u, unit) call" where
  [code]: "fire_bundles L serviceEvent canonical i s =
     (if i < length (bundles s) then
        (case fire_listeners L serviceEvent canonical (bundles s ! i) 0 s of
           None \<Rightarrow> None
         | Some (Inl e, s') \<Rightarrow> Some (Inl e, s')
         | Some (Inr u, s') \<Rightarrow> fire_bundles L serviceEvent canonical (i + 1) s')
      else Some (Inr (), s))"

definition canonical_filter :: "string \<Rightarrow> string" where
  "canonical_filter serviceName = ''('' @ OBJECTCLASS @ ''='' @ serviceName @ '')''"

definition fireServiceEvent :: "'u ServiceListener \<Rightarrow> ServiceEvent \<Rightarrow> ('u, unit) call" where
  "fireServiceEvent L serviceEvent s =
     (let serviceName = r_serviceName (referenceAt s (getServiceReference serviceEvent))
      in fire_bundles L serviceEvent (canonical_filter serviceName) 0 s)"

subsection \<open>\<open>BundleImpl_API\<close>\<close>

text \<open>\<open>unregisterServices\<close>: the loop, then \<open>_serviceReferences->clear()\<close>.\<close>

partial_function (option) unregisterServices_loop ::
  "'u ServiceListener \<Rightarrow> addr \<Rightarrow> nat \<Rightarrow> ('u, unit) call" where
  [code]: "unregisterServices_loop L this i s =
     (if i < length (b_serviceReferences (bundleAt s this)) then
        (let serviceReference = b_serviceReferences (bundleAt s this) ! i in
         case fireServiceEvent L
                \<lparr>getType = UNREGISTERING, getServiceReference = serviceReference\<rparr> s of
           None \<Rightarrow> None
         | Some (Inl e, s') \<Rightarrow> Some (Inl e, s')
         | Some (Inr u, s') \<Rightarrow>
             unregisterServices_loop L this (i + 1)
               (reference_upd serviceReference (\<lambda>R. R\<lparr>r_bundle := None\<rparr>) s'))
      else Some (Inr (), s))"

definition unregisterServices :: "'u ServiceListener \<Rightarrow> addr \<Rightarrow> ('u, unit) call" where
  "unregisterServices L this s =
     (case unregisterServices_loop L this 0 s of
        None \<Rightarrow> None
      | Some (Inl e, s') \<Rightarrow> Some (Inl e, s')
      | Some (Inr u, s') \<Rightarrow>
          Some (Inr (), bundle_upd this (\<lambda>B. B\<lparr>b_serviceReferences := []\<rparr>) s'))"

definition unregisterListeners :: "addr \<Rightarrow> 'u OSGiImpl \<Rightarrow> 'u OSGiImpl" where
  "unregisterListeners this s =
     bundle_upd this (\<lambda>B. B\<lparr>b_serviceListeners := [], b_serviceListenerFilters := []\<rparr>) s"

text \<open>\<open>_activator->start(_context)\<close> and \<open>_activator->stop(_context)\<close>; a null handle throws.\<close>

definition call_start :: "'u BundleActivator \<Rightarrow> addr \<Rightarrow> ('u, unit) call" where
  "call_start A this s =
     (case b_activator (bundleAt s this) of
        None \<Rightarrow> Some (Inl (newInstance NullPointerException True), s)
      | Some activator \<Rightarrow> activator_start A activator (b_context (bundleAt s this)) s)"

definition call_stop :: "'u BundleActivator \<Rightarrow> addr \<Rightarrow> ('u, unit) call" where
  "call_stop A this s =
     (case b_activator (bundleAt s this) of
        None \<Rightarrow> Some (Inl (newInstance NullPointerException True), s)
      | Some activator \<Rightarrow> activator_stop A activator (b_context (bundleAt s this)) s)"

text \<open>
  \<open>BundleImpl_API::start\<close>. The handler \<open>catch (Exception error)\<close> takes a thrown handle
  of class \<open>Exception\<close> or of a class derived from it; any other thrown object leaves
  \<open>start\<close> as it is. The two exceptions that \<open>start\<close> constructs have a message.
\<close>

definition BundleImpl_start ::
  "'u BundleActivator \<Rightarrow> 'u ServiceListener \<Rightarrow> addr \<Rightarrow> ('u, unit) call" where
  "BundleImpl_start A L this s =
     (if b_state (bundleAt s this) \<noteq> RESOLVED then Some (Inl (newInstance Exception True), s)
      else
        (let s1 = bundle_upd this (\<lambda>B. B\<lparr>b_state := STARTING\<rparr>) s in
         case call_start A this s1 of
           None \<Rightarrow> None
         | Some (Inr u, s2) \<Rightarrow> Some (Inr (), bundle_upd this (\<lambda>B. B\<lparr>b_state := ACTIVE\<rparr>) s2)
         | Some (Inl error, s2) \<Rightarrow>
             (if instanceOf (handle_class error) Exception then
                (let s3 = bundle_upd this (\<lambda>B. B\<lparr>b_state := STOPPING\<rparr>) s2 in
                 case unregisterServices L this s3 of
                   None \<Rightarrow> None
                 | Some (Inl e, s4) \<Rightarrow> Some (Inl e, s4)
                 | Some (Inr u, s4) \<Rightarrow>
                     (let s5 = unregisterListeners this s4;
                          s6 = bundle_upd this (\<lambda>B. B\<lparr>b_state := RESOLVED\<rparr>) s5;
                          s7 = bundle_upd this (\<lambda>B. B\<lparr>b_context := None\<rparr>) s6
                      in Some (Inl (newInstance Exception True), s7)))
              else Some (Inl error, s2))))"

text \<open>
  \<open>BundleImpl_API::stop\<close>. The caught handle is kept in a variable of class \<open>Exception\<close>
  and thrown again from it after the cleanup: the same object, by a handle of class
  \<open>Exception\<close>.
\<close>

definition BundleImpl_stop ::
  "'u BundleActivator \<Rightarrow> 'u ServiceListener \<Rightarrow> addr \<Rightarrow> ('u, unit) call" where
  "BundleImpl_stop A L this s =
     (if b_state (bundleAt s this) \<noteq> ACTIVE then Some (Inr (), s)
      else
        (let s1 = bundle_upd this (\<lambda>B. B\<lparr>b_state := STOPPING\<rparr>) s in
         case call_stop A this s1 of
           None \<Rightarrow> None
         | Some (outcome, s2) \<Rightarrow>
             (case (case outcome of
                      Inr u \<Rightarrow> Inr None
                    | Inl e \<Rightarrow>
                        if instanceOf (handle_class e) Exception
                        then Inr (Some (e\<lparr>handle_class := Exception\<rparr>)) else Inl e) of
                Inl e \<Rightarrow> Some (Inl e, s2)
              | Inr error \<Rightarrow>
                  (case unregisterServices L this s2 of
                     None \<Rightarrow> None
                   | Some (Inl e, s3) \<Rightarrow> Some (Inl e, s3)
                   | Some (Inr u, s3) \<Rightarrow>
                       (let s4 = unregisterListeners this s3;
                            s5 = bundle_upd this (\<lambda>B. B\<lparr>b_state := RESOLVED\<rparr>) s4
                        in case error of
                             Some e \<Rightarrow> Some (Inl e, s5)
                           | None \<Rightarrow> Some (Inr (), s5))))))"

subsection \<open>\<open>OSGiImpl_API::start\<close> and \<open>stop\<close>\<close>

definition new_BundleImpl :: "string \<Rightarrow> addr option \<Rightarrow> BundleImpl" where
  "new_BundleImpl symbolicName activator =
     \<lparr>b_symbolicName = symbolicName, b_activator = activator, b_state = RESOLVED,
      b_serviceReferences = [], b_serviceListeners = [], b_serviceListenerFilters = [],
      b_context = None\<rparr>"

text \<open>The body of the \<open>try\<close> block of \<open>OSGiImpl_API::start\<close>.\<close>

definition OSGiImpl_start_body ::
  "'u BundleActivator \<Rightarrow> 'u ServiceListener \<Rightarrow> string \<Rightarrow> addr option \<Rightarrow> ('u, unit) call" where
  "OSGiImpl_start_body A L symbolicName activator s =
     (let (bundle, s1) =
            (case getBundle symbolicName s of
               Some bundle \<Rightarrow> (bundle, s)
             | None \<Rightarrow>
                 (allocated s,
                  s\<lparr>allocated := allocated s + 1,
                    bundleAt := (bundleAt s)(allocated s := new_BundleImpl symbolicName activator),
                    bundles := bundles s @ [allocated s]\<rparr>));
          context = allocated s1;
          s2 = s1\<lparr>allocated := allocated s1 + 1,
                 contextAt := (contextAt s1)(context := \<lparr>c_bundle = bundle\<rparr>)\<rparr>;
          s3 = bundle_upd bundle (\<lambda>B. B\<lparr>b_context := Some context\<rparr>) s2
      in BundleImpl_start A L bundle s3)"

text \<open>
  \<open>Logging_API::error(subject, thrown)\<close> returns at once when \<open>isErrorEnabled\<close> is false.
  Otherwise it prints \<open>thrown\<close>: the handle is not null, so the object is printed as
  \<open>toString()->toWString()\<close>, where \<open>Throwable_API::toString\<close> returns the message. Through
  a malformed handle that call has no defined behaviour (\<open>MalformedHandle\<close>, the call
  neither throws nor returns); for an object without a message \<open>operator->\<close> on the null
  string throws \<open>NullPointerException\<close>, and \<open>error\<close> is left by it. Then
  \<open>printStackTrace()\<close> prints a second line, which does not fail (it prints the message
  through the handle's own \<open>operator<<\<close>, which writes \<open>null\<close> for a null handle).
\<close>

datatype 'a printed = Printed 'a | MalformedHandle

definition Logging_error ::
  "thrown \<Rightarrow> 'u OSGiImpl \<Rightarrow> ((thrown + unit) \<times> 'u OSGiImpl) printed" where
  "Logging_error error s =
     (if \<not> isErrorEnabled s then Printed (Inr (), s)
      else if malformed (object_class error) then MalformedHandle
      else if \<not> has_message error then Printed (Inl (newInstance NullPointerException True), s)
      else Printed (Inr (), s\<lparr>logged := logged s @ [error]\<rparr>))"

text \<open>
  \<open>try { body } catch (Throwable error) { Logging_API::error(L"JAVOLUTION", error); }\<close>: a
  thrown handle of class \<open>Throwable\<close> or of a class derived from it is given to
  \<open>Logging_API::error\<close>; what that call throws leaves the handler.
\<close>

definition catch_Throwable_log ::
  "('u, unit) call \<Rightarrow> 'u OSGiImpl \<Rightarrow> ((thrown + unit) \<times> 'u OSGiImpl) printed option" where
  "catch_Throwable_log body s =
     (case body s of
        None \<Rightarrow> None
      | Some (Inr u, s') \<Rightarrow> Some (Printed (Inr (), s'))
      | Some (Inl error, s') \<Rightarrow>
          (if instanceOf (handle_class error) Throwable then Some (Logging_error error s')
           else Some (Printed (Inl error, s'))))"

definition OSGiImpl_start ::
  "'u BundleActivator \<Rightarrow> 'u ServiceListener \<Rightarrow> string \<Rightarrow> addr option \<Rightarrow>
     'u OSGiImpl \<Rightarrow> ((thrown + unit) \<times> 'u OSGiImpl) printed option" where
  "OSGiImpl_start A L symbolicName activator =
     catch_Throwable_log (OSGiImpl_start_body A L symbolicName activator)"

definition OSGiImpl_stop_body ::
  "'u BundleActivator \<Rightarrow> 'u ServiceListener \<Rightarrow> string \<Rightarrow> ('u, unit) call" where
  "OSGiImpl_stop_body A L symbolicName s =
     (case getBundle symbolicName s of
        None \<Rightarrow> Some (Inl (newInstance Exception True), s)
      | Some bundle \<Rightarrow>
          (case BundleImpl_stop A L bundle s of
             None \<Rightarrow> None
           | Some (Inl e, s') \<Rightarrow> Some (Inl e, s')
           | Some (Inr u, s') \<Rightarrow>
               Some (Inr (), bundle_upd bundle (\<lambda>B. B\<lparr>b_context := None\<rparr>) s')))"

definition OSGiImpl_stop ::
  "'u BundleActivator \<Rightarrow> 'u ServiceListener \<Rightarrow> string \<Rightarrow>
     'u OSGiImpl \<Rightarrow> ((thrown + unit) \<times> 'u OSGiImpl) printed option" where
  "OSGiImpl_stop A L symbolicName = catch_Throwable_log (OSGiImpl_stop_body A L symbolicName)"

subsection \<open>\<open>BundleContextImpl_API\<close> and \<open>ServiceRegistrationImpl_API\<close>\<close>

definition addServiceListener :: "addr \<Rightarrow> addr option \<Rightarrow> string option \<Rightarrow> ('u, unit) call" where
  "addServiceListener this sl flt s =
     (let bundle = c_bundle (contextAt s this);
          s1 = bundle_upd bundle (\<lambda>B. B\<lparr>b_serviceListeners := b_serviceListeners B @ [sl]\<rparr>) s;
          s2 = bundle_upd bundle
                 (\<lambda>B. B\<lparr>b_serviceListenerFilters := b_serviceListenerFilters B @ [flt]\<rparr>) s1
      in Some (Inr (), s2))"

definition removeServiceListener :: "addr \<Rightarrow> addr option \<Rightarrow> ('u, unit) call" where
  "removeServiceListener this sl s =
     (let bundle = c_bundle (contextAt s this);
          index = FastTable_indexOf (b_serviceListeners (bundleAt s bundle)) sl
      in case FastTable_remove (b_serviceListeners (bundleAt s bundle)) index of
           Inl e \<Rightarrow> Some (Inl (newInstance e True), s)
         | Inr listeners \<Rightarrow>
             (let s1 = bundle_upd bundle (\<lambda>B. B\<lparr>b_serviceListeners := listeners\<rparr>) s in
              case FastTable_remove (b_serviceListenerFilters (bundleAt s1 bundle)) index of
                Inl e \<Rightarrow> Some (Inl (newInstance e True), s1)
              | Inr filters \<Rightarrow>
                  Some (Inr (), bundle_upd bundle (\<lambda>B. B\<lparr>b_serviceListenerFilters := filters\<rparr>) s1)))"

definition registerService ::
  "'u ServiceListener \<Rightarrow> addr \<Rightarrow> string \<Rightarrow> addr option \<Rightarrow> ('u, ServiceRegistrationImpl) call" where
  "registerService L this serviceName service s =
     (let bundle = c_bundle (contextAt s this);
          serviceReference = allocated s;
          s1 = s\<lparr>allocated := allocated s + 1,
                referenceAt := (referenceAt s)(serviceReference :=
                  \<lparr>r_bundle = Some bundle, r_serviceName = serviceName, r_service = service\<rparr>)\<rparr>;
          s2 = bundle_upd bundle
                 (\<lambda>B. B\<lparr>b_serviceReferences := b_serviceReferences B @ [serviceReference]\<rparr>) s1
      in case fireServiceEvent L
                \<lparr>getType = REGISTERED, getServiceReference = serviceReference\<rparr> s2 of
           None \<Rightarrow> None
         | Some (Inl e, s3) \<Rightarrow> Some (Inl e, s3)
         | Some (Inr u, s3) \<Rightarrow> Some (Inr \<lparr>g_serviceReference = serviceReference\<rparr>, s3))"

text \<open>
  \<open>ServiceRegistrationImpl_API::unregister\<close> reaches the registry through the plain
  pointer that \<open>dynamic_handle_cast\<close> makes of the reference's \<open>_bundle\<close> handle, with no
  null check: when \<open>_bundle\<close> is null the call has no defined behaviour in C++
  (\<open>NullDereference\<close>), and neither throws nor returns.
\<close>

datatype 'a defined = Defined 'a | NullDereference

definition unregister ::
  "'u ServiceListener \<Rightarrow> ServiceRegistrationImpl \<Rightarrow> 'u OSGiImpl \<Rightarrow>
     ((thrown + unit) \<times> 'u OSGiImpl) defined option" where
  "unregister L this s =
     (let serviceReference = g_serviceReference this in
      case r_bundle (referenceAt s serviceReference) of
        None \<Rightarrow> Some NullDereference
      | Some bundle \<Rightarrow>
          (case fireServiceEvent L
                  \<lparr>getType = UNREGISTERING, getServiceReference = serviceReference\<rparr> s of
             None \<Rightarrow> None
           | Some (Inl e, s1) \<Rightarrow> Some (Defined (Inl e, s1))
           | Some (Inr u, s1) \<Rightarrow>
               (case r_bundle (referenceAt s1 serviceReference) of
                  None \<Rightarrow> Some NullDereference
                | Some bundle1 \<Rightarrow>
                    (let s2 = bundle_upd bundle1
                           (\<lambda>B. B\<lparr>b_serviceReferences :=
                                   remove1 serviceReference (b_serviceReferences B)\<rparr>) s1;
                         s3 = reference_upd serviceReference (\<lambda>R. R\<lparr>r_bundle := None\<rparr>) s2
                     in Some (Defined (Inr (), s3))))))"

section \<open>Notions used to state the properties\<close>

subsection \<open>Event delivery\<close>

text \<open>Calling \<open>serviceChanged\<close> on a sequence of listener handles, one after the other.\<close>

fun deliver :: "'u ServiceListener \<Rightarrow> ServiceEvent \<Rightarrow> addr option list \<Rightarrow> ('u, unit) call" where
  "deliver L serviceEvent [] s = Some (Inr (), s)"
| "deliver L serviceEvent (sl # rest) s =
     (case sl of
        None \<Rightarrow> Some (Inl (newInstance NullPointerException True), s)
      | Some listener \<Rightarrow>
          (case L listener serviceEvent s of
             None \<Rightarrow> None
           | Some (Inl e, s') \<Rightarrow> Some (Inl e, s')
           | Some (Inr u, s') \<Rightarrow> deliver L serviceEvent rest s'))"

text \<open>
  The subscriptions \<open>(bundle, index)\<close> whose stored filter string equals \<open>flt\<close>, bundles
  in registry order and the indices of a bundle in increasing order.
\<close>

definition subscribed_in :: "string \<Rightarrow> 'u OSGiImpl \<Rightarrow> addr \<Rightarrow> nat \<Rightarrow> (addr \<times> nat) list" where
  "subscribed_in flt s b from =
     map (Pair b)
       (filter (\<lambda>j. b_serviceListenerFilters (bundleAt s b) ! j = Some flt)
          [from ..< length (b_serviceListenerFilters (bundleAt s b))])"

definition subscribed :: "string \<Rightarrow> 'u OSGiImpl \<Rightarrow> (addr \<times> nat) list" where
  "subscribed flt s = concat (map (\<lambda>b. subscribed_in flt s b 0) (bundles s))"

definition listener_at :: "'u OSGiImpl \<Rightarrow> addr \<times> nat \<Rightarrow> addr option" where
  "listener_at s = (\<lambda>(b, j). b_serviceListeners (bundleAt s b) ! j)"

text \<open>The listeners of the subscriptions that are still to be visited from bundle index \<open>i\<close> on.\<close>

definition recipients_from :: "string \<Rightarrow> 'u OSGiImpl \<Rightarrow> nat \<Rightarrow> addr option list" where
  "recipients_from c s i =
     concat (map (\<lambda>b. map (listener_at s) (subscribed_in c s b 0)) (drop i (bundles s)))"

text \<open>Two states with the same bundle table and the same subscriptions.\<close>

definition same_subscriptions :: "'u OSGiImpl \<Rightarrow> 'u OSGiImpl \<Rightarrow> bool" where
  "same_subscriptions s s' =
     (bundles s' = bundles s \<and>
      (\<forall>b. b_serviceListeners (bundleAt s' b) = b_serviceListeners (bundleAt s b) \<and>
           b_serviceListenerFilters (bundleAt s' b) = b_serviceListenerFilters (bundleAt s b)))"

text \<open>The listeners of the subscriptions whose stored filter string equals \<open>flt\<close>.\<close>

definition called :: "string \<Rightarrow> 'u OSGiImpl \<Rightarrow> addr set" where
  "called flt s = {l. Some l \<in> set (map (listener_at s) (subscribed flt s))}"

text \<open>
  The code of the listeners in \<open>X\<close>, given the event, leaves the registry's bundle table
  and every subscription as it is, whether it returns or throws.
\<close>

definition keeps_subscriptions :: "'u ServiceListener \<Rightarrow> ServiceEvent \<Rightarrow> addr set \<Rightarrow> bool" where
  "keeps_subscriptions L ev X =
     (\<forall>l \<in> X. \<forall>s r s'. L l ev s = Some (r, s') \<longrightarrow> same_subscriptions s s')"

text \<open>
  From index \<open>j\<close> on, every subscription of bundle \<open>b\<close> whose stored filter string equals
  \<open>flt\<close> has a listener entry, and that listener, when it is not null, is in \<open>X\<close>.
\<close>

definition within :: "addr set \<Rightarrow> string \<Rightarrow> 'u OSGiImpl \<Rightarrow> addr \<Rightarrow> nat \<Rightarrow> bool" where
  "within X flt s b j =
     (\<forall>k. j \<le> k \<and> k < length (b_serviceListenerFilters (bundleAt s b)) \<and>
          b_serviceListenerFilters (bundleAt s b) ! k = Some flt \<longrightarrow>
          k < length (b_serviceListeners (bundleAt s b)) \<and>
          (\<forall>l. b_serviceListeners (bundleAt s b) ! k = Some l \<longrightarrow> l \<in> X))"


text \<open>Listener code that returns, normally or by throwing, and changes the user state only.\<close>

definition only_user :: "'u ServiceListener \<Rightarrow> bool" where
  "only_user L = (\<forall>l ev s. \<exists>r u. L l ev s = Some (r, s\<lparr>user := u\<rparr>))"

text \<open>Activator code that returns, normally or by throwing.\<close>

definition returning :: "'u BundleActivator \<Rightarrow> bool" where
  "returning A =
     (\<forall>a c s. activator_start A a c s \<noteq> None \<and> activator_stop A a c s \<noteq> None)"

text \<open>
  Every subscription whose stored filter string matches the event has a listener entry,
  not null, and the code of that listener, given the event, returns normally and changes
  the user state only.
\<close>

definition answered :: "'u ServiceListener \<Rightarrow> ServiceEvent \<Rightarrow> 'u OSGiImpl \<Rightarrow> bool" where
  "answered L ev s =
     (\<forall>(b, j) \<in> set (subscribed
          (canonical_filter (r_serviceName (referenceAt s (getServiceReference ev)))) s).
        j < length (b_serviceListeners (bundleAt s b)) \<and>
        (\<exists>l. b_serviceListeners (bundleAt s b) ! j = Some l \<and>
             (\<forall>s1. \<exists>u. L l ev s1 = Some (Inr (), s1\<lparr>user := u\<rparr>))))"

text \<open>
  A thrown object that \<open>Logging_API::error\<close> can print, one that it can read, and code
  whose thrown objects all have the property \<open>Q\<close>. The framework's own exceptions are \<open>Exception\<close>,
  \<open>NullPointerException\<close> and \<open>IndexOutOfBoundsException\<close> objects with a message, and
  \<open>stop\<close> throws again, by a handle of class \<open>Exception\<close>, what user code has thrown.
\<close>

definition printable :: "thrown \<Rightarrow> bool" where
  "printable e = (has_message e \<and> \<not> malformed (object_class e))"

definition well_formed :: "thrown \<Rightarrow> bool" where
  "well_formed e = (\<not> malformed (object_class e))"

definition throws_only :: "(thrown \<Rightarrow> bool) \<Rightarrow> ('u, 'a) call \<Rightarrow> bool" where
  "throws_only Q f = (\<forall>s e s'. f s = Some (Inl e, s') \<longrightarrow> Q e)"

definition framework_throws :: "(thrown \<Rightarrow> bool) \<Rightarrow> bool" where
  "framework_throws Q =
     (Q (newInstance Exception True) \<and> Q (newInstance NullPointerException True) \<and>
      Q (newInstance IndexOutOfBoundsException True) \<and>
      (\<forall>e. Q e \<longrightarrow> Q (e\<lparr>handle_class := Exception\<rparr>)))"

subsection \<open>Unregistration of a sequence of services\<close>

text \<open>
  For each reference in turn: fire its \<open>UNREGISTERING\<close> event, then clear its owning-bundle
  link. The bundle's reference sequence is not touched.
\<close>

fun announce :: "'u ServiceListener \<Rightarrow> addr list \<Rightarrow> ('u, unit) call" where
  "announce L [] s = Some (Inr (), s)"
| "announce L (serviceReference # rest) s =
     (case fireServiceEvent L
             \<lparr>getType = UNREGISTERING, getServiceReference = serviceReference\<rparr> s of
        None \<Rightarrow> None
      | Some (Inl e, s') \<Rightarrow> Some (Inl e, s')
      | Some (Inr u, s') \<Rightarrow>
          announce L rest (reference_upd serviceReference (\<lambda>R. R\<lparr>r_bundle := None\<rparr>) s'))"

subsection \<open>Sequences of calls\<close>

text \<open>
  Successive calls of \<open>OSGiImpl_API::start\<close> with one symbolic name, each on the state
  that the call before it has left, whether that call returned or threw. There is no
  state after a call that does not return or that has no defined behaviour.
\<close>

fun starts ::
  "'u BundleActivator \<Rightarrow> 'u ServiceListener \<Rightarrow> string \<Rightarrow> addr option list \<Rightarrow>
     'u OSGiImpl \<Rightarrow> 'u OSGiImpl option" where
  "starts A L symbolicName [] s = Some s"
| "starts A L symbolicName (activator # rest) s =
     (case OSGiImpl_start A L symbolicName activator s of
        None \<Rightarrow> None
      | Some MalformedHandle \<Rightarrow> None
      | Some (Printed (outcome, s')) \<Rightarrow> starts A L symbolicName rest s')"

text \<open>
  User code that may append bundles to the registry's table, and leaves the bundles
  already in the table there, with their symbolic names and activators.
\<close>

definition extends_registry :: "'u OSGiImpl \<Rightarrow> 'u OSGiImpl \<Rightarrow> bool" where
  "extends_registry s s' =
     ((\<exists>appended. bundles s' = bundles s @ appended) \<and>
      (\<forall>b \<in> set (bundles s).
         b_symbolicName (bundleAt s' b) = b_symbolicName (bundleAt s b) \<and>
         b_activator (bundleAt s' b) = b_activator (bundleAt s b)))"

definition keeps_bundles :: "('u, 'a) call \<Rightarrow> bool" where
  "keeps_bundles f = (\<forall>s r s'. f s = Some (r, s') \<longrightarrow> extends_registry s s')"

text \<open>
  The operations that write a bundle's listener and filter sequences: the two of the
  bundle context, and \<open>unregisterListeners\<close>, which \<open>start\<close> (on failure) and \<open>stop\<close>
  run as teardown. \<open>after_op\<close> is the state such a call leaves, whether it returns
  or throws.
\<close>

datatype listener_op =
    AddServiceListener addr "addr option" "string option"
  | RemoveServiceListener addr "addr option"
  | UnregisterListeners addr

fun after_op :: "listener_op \<Rightarrow> 'u OSGiImpl \<Rightarrow> 'u OSGiImpl" where
  "after_op (AddServiceListener c sl flt) s =
     (case addServiceListener c sl flt s of None \<Rightarrow> s | Some (outcome, s') \<Rightarrow> s')"
| "after_op (RemoveServiceListener c sl) s =
     (case removeServiceListener c sl s of None \<Rightarrow> s | Some (outcome, s') \<Rightarrow> s')"
| "after_op (UnregisterListeners b) s = unregisterListeners b s"

fun after_ops :: "listener_op list \<Rightarrow> 'u OSGiImpl \<Rightarrow> 'u OSGiImpl" where
  "after_ops [] s = s"
| "after_ops (op # ops) s = after_ops ops (after_op op s)"

text \<open>The pairs that the calls of \<open>addServiceListener\<close> among \<open>ops\<close> register with bundle \<open>b\<close>.\<close>

definition registered_pairs ::
  "'u OSGiImpl \<Rightarrow> listener_op list \<Rightarrow> addr \<Rightarrow> (addr option \<times> string option) set" where
  "registered_pairs s ops b =
     {(sl, flt). \<exists>c. AddServiceListener c sl flt \<in> set ops \<and> c_bundle (contextAt s c) = b}"

definition all_aligned :: "'u OSGiImpl \<Rightarrow> bool" where
  "all_aligned s =
     (\<forall>b. length (b_serviceListeners (bundleAt s b)) =
          length (b_serviceListenerFilters (bundleAt s b)))"

text \<open>Every context handle stored in a bundle points to an allocated object.\<close>

definition contexts_allocated :: "'u OSGiImpl \<Rightarrow> bool" where
  "contexts_allocated s = (\<forall>b c. b_context (bundleAt s b) = Some c \<longrightarrow> c < allocated s)"

section \<open>A concrete scenario\<close>

text \<open>
  The user state is the list of the events delivered so far: the listener called, the
  event type and the service reference.
\<close>

type_synonym deliveries = "(addr \<times> int \<times> addr) list"

definition recording :: "deliveries ServiceListener" where
  "recording l ev s =
     Some (Inr (), s\<lparr>user := user s @ [(l, getType ev, getServiceReference ev)]\<rparr>)"

text \<open>
  The start hooks of activators 1, 2 and 3 subscribe listener 9 to \<open>(objectClass=X)\<close>
  and register service 42 under the name \<open>X\<close>; then activator 1 throws
  \<open>RuntimeException_API::newInstance("...")\<close>, activator 2 throws
  \<open>Error_API::newInstance()\<close> and activator 3 returns normally. The start hook of any other
  activator returns at once. The stop hook of activator 4 throws
  \<open>RuntimeException_API::newInstance()\<close>, the stop hook of activator 6 tries to remove a
  listener handle (5) that its bundle has not subscribed, and every other stop hook
  returns at once.
\<close>

definition subscribe_and_register :: "addr option \<Rightarrow> (deliveries, unit) call" where
  "subscribe_and_register ctx s =
     (case ctx of
        None \<Rightarrow> Some (Inl (newInstance NullPointerException True), s)
      | Some c \<Rightarrow>
          (case addServiceListener c (Some 9) (Some ''(objectClass=X)'') s of
             None \<Rightarrow> None
           | Some (Inl e, s1) \<Rightarrow> Some (Inl e, s1)
           | Some (Inr u, s1) \<Rightarrow>
               (case registerService recording c ''X'' (Some 42) s1 of
                  None \<Rightarrow> None
                | Some (Inl e, s2) \<Rightarrow> Some (Inl e, s2)
                | Some (Inr registration, s2) \<Rightarrow> Some (Inr (), s2))))"

definition scenario :: "deliveries BundleActivator" where
  "scenario =
     \<lparr>activator_start = (\<lambda>a ctx s.
        if a = 1 then
          (case subscribe_and_register ctx s of
             None \<Rightarrow> None
           | Some (Inl e, s') \<Rightarrow> Some (Inl e, s')
           | Some (Inr u, s') \<Rightarrow> Some (Inl (newInstance RuntimeException True), s'))
        else if a = 2 then
          (case subscribe_and_register ctx s of
             None \<Rightarrow> None
           | Some (Inl e, s') \<Rightarrow> Some (Inl e, s')
           | Some (Inr u, s') \<Rightarrow> Some (Inl (newInstance Error False), s'))
        else if a = 3 then subscribe_and_register ctx s
        else Some (Inr (), s)),
      activator_stop = (\<lambda>a ctx s.
        if a = 4 then Some (Inl (newInstance RuntimeException False), s)
        else if a = 6 then
          (case ctx of
             None \<Rightarrow> Some (Inl (newInstance NullPointerException True), s)
           | Some c \<Rightarrow> removeServiceListener c (Some 5) s)
        else Some (Inr (), s))\<rparr>"

definition empty_registry :: "deliveries OSGiImpl" where
  "empty_registry =
     \<lparr>bundles = [], bundleAt = (\<lambda>a. new_BundleImpl [] None),
      referenceAt = (\<lambda>a. \<lparr>r_bundle = None, r_serviceName = [], r_service = None\<rparr>),
      contextAt = (\<lambda>a. \<lparr>c_bundle = 0\<rparr>), allocated = 0, isErrorEnabled = True,
      logged = [], user = []\<rparr>"

text \<open>
  One bundle (object 0) named \<open>A\<close>, resolved, with the given activator and with the
  context object 1.
\<close>

definition resolved_A :: "addr \<Rightarrow> deliveries OSGiImpl" where
  "resolved_A activator =
     empty_registry
       \<lparr>bundles := [0],
        bundleAt := (bundleAt empty_registry)
          (0 := (new_BundleImpl ''A'' (Some activator))\<lparr>b_context := Some 1\<rparr>),
        allocated := 2\<rparr>"

text \<open>
  The same bundle, active, with listener 9 subscribed to \<open>(objectClass=X)\<close> and
  service 42 published under the name \<open>X\<close> as reference 2.
\<close>

definition published :: "deliveries OSGiImpl" where
  "published =
     empty_registry
       \<lparr>bundles := [0],
        bundleAt := (bundleAt empty_registry)
          (0 := \<lparr>b_symbolicName = ''A'', b_activator = Some 3, b_state = ACTIVE,
                 b_serviceReferences = [2], b_serviceListeners = [Some 9],
                 b_serviceListenerFilters = [Some ''(objectClass=X)''],
                 b_context = Some 1\<rparr>),
        referenceAt := (referenceAt empty_registry)
          (2 := \<lparr>r_bundle = Some 0, r_serviceName = ''X'', r_service = Some 42\<rparr>),
        allocated := 3\<rparr>"

text \<open>
  Calls through the context object 1 of bundle 0: two subscriptions, the removal of the
  first, and the removal of a listener that was never added (which throws).
\<close>

definition subscription_calls :: "listener_op list" where
  "subscription_calls =
     [AddServiceListener 1 (Some 9) (Some ''(objectClass=X)''),
      AddServiceListener 1 (Some 8) (Some ''(objectClass=Y)''),
      RemoveServiceListener 1 (Some 9),
      RemoveServiceListener 1 (Some 5)]"

text \<open>
  Two bundles: bundle 0 with listener 9 subscribed to \<open>(objectClass=X)\<close> and listener 8
  to \<open>(objectClass=Y)\<close>, and bundle 5 (context object 6) with listener 7 subscribed to
  \<open>(objectClass=X)\<close>; reference 2 is a service of bundle 0 with the name \<open>X\<close>.
\<close>

definition two_bundles :: "deliveries OSGiImpl" where
  "two_bundles =
     empty_registry
       \<lparr>bundles := [0, 5],
        bundleAt := (bundleAt empty_registry)
          (0 := \<lparr>b_symbolicName = ''A'', b_activator = Some 3, b_state = ACTIVE,
                 b_serviceReferences = [2], b_serviceListeners = [Some 9, Some 8],
                 b_serviceListenerFilters = [Some ''(objectClass=X)'', Some ''(objectClass=Y)''],
                 b_context = Some 1\<rparr>,
           5 := \<lparr>b_symbolicName = ''B'', b_activator = Some 4, b_state = ACTIVE,
                 b_serviceReferences = [], b_serviceListeners = [Some 7],
                 b_serviceListenerFilters = [Some ''(objectClass=X)''],
                 b_context = Some 6\<rparr>),
        referenceAt := (referenceAt empty_registry)
          (2 := \<lparr>r_bundle = Some 0, r_serviceName = ''X'', r_service = Some 42\<rparr>),
        contextAt := (contextAt empty_registry)(6 := \<lparr>c_bundle = 5\<rparr>),
        allocated := 7\<rparr>"

text \<open>
  The state in which activator 1 or 2, started for the bundle of \<open>resolved_A\<close>, throws:
  the listener is subscribed, the service is published as reference 2 and its
  \<open>REGISTERED\<close> event has been delivered.
\<close>

definition raised_A :: "addr \<Rightarrow> deliveries OSGiImpl" where
  "raised_A activator =
     empty_registry
       \<lparr>bundles := [0],
        bundleAt := (bundleAt empty_registry)
          (0 := \<lparr>b_symbolicName = ''A'', b_activator = Some activator, b_state = STARTING,
                 b_serviceReferences = [2], b_serviceListeners = [Some 9],
                 b_serviceListenerFilters = [Some ''(objectClass=X)''],
                 b_context = Some 1\<rparr>),
        referenceAt := (referenceAt empty_registry)
          (2 := \<lparr>r_bundle = Some 0, r_serviceName = ''X'', r_service = Some 42\<rparr>),
        allocated := 3,
        user := [(9, REGISTERED, 2)]\<rparr>"

text \<open>
  A listener that records an event like \<open>recording\<close>, except that it throws a
  \<open>RuntimeException\<close> when it is given an \<open>UNREGISTERING\<close> event.
\<close>

definition refusing :: "deliveries ServiceListener" where
  "refusing l ev s =
     (if getType ev = UNREGISTERING then Some (Inl (newInstance RuntimeException True), s)
      else recording l ev s)"





text \<open>
  The state of \<open>two_bundles\<close> once bundle 5 has been stopped: it is resolved and has no
  subscriptions (its context is still set).
\<close>

definition stopped_B :: "deliveries OSGiImpl" where
  "stopped_B = two_bundles
     \<lparr>bundleAt := (bundleAt two_bundles)
        (5 := (bundleAt two_bundles 5)
           \<lparr>b_state := RESOLVED, b_serviceListeners := [], b_serviceListenerFilters := []\<rparr>)\<rparr>"

section \<open>Filter compilation and matching\<close>

lemma startsWith_loop_iff:
  "i \<le> length prefix \<Longrightarrow> length prefix + offset \<le> length this \<Longrightarrow>
   startsWith_loop this prefix offset i =
     (drop i prefix = take (length prefix - i) (drop (i + offset) this))"
proof (induction "length prefix - i" arbitrary: i)
  case 0
  then show ?case by (simp add: startsWith_loop.simps)
next
  case (Suc n)
  then have i: "i < length prefix" by simp
  have d1: "drop i prefix = prefix ! i # drop (Suc i) prefix"
    using i by (simp add: Cons_nth_drop_Suc)
  have "i + offset < length this" using i Suc.prems by simp
  then have d2: "drop (i + offset) this = this ! (i + offset) # drop (Suc (i + offset)) this"
    by (simp add: Cons_nth_drop_Suc)
  have len: "length prefix - i = Suc (length prefix - Suc i)" using i by simp
  have IH: "startsWith_loop this prefix offset (Suc i) =
      (drop (Suc i) prefix = take (length prefix - Suc i) (drop (Suc i + offset) this))"
    using Suc.hyps(1)[of "Suc i"] Suc.hyps(2) Suc.prems i by simp
  show ?case
    using i IH by (subst startsWith_loop.simps) (auto simp: d1 d2 len)
qed

lemma startsWith_iff:
  "startsWith this prefix offset =
     (length prefix + offset \<le> length this \<and>
      take (length prefix) (drop offset this) = prefix)"
  using startsWith_loop_iff[of 0 prefix offset this]
  by (auto simp: startsWith_def)

lemma length_OBJECTCLASS: "length OBJECTCLASS = 11"
  by (simp add: OBJECTCLASS_def)

lemma new_FilterImpl_cases:
  "new_FilterImpl fs =
     (if 12 \<le> length fs \<and> take 11 (drop 1 fs) = OBJECTCLASS
      then (if 14 \<le> length fs
            then Inr \<lparr>f_className = take (length fs - 14) (drop 13 fs), f_filterString = fs\<rparr>
            else Inl IndexOutOfBoundsException)
      else Inl UnsupportedOperationException)"
proof -
  have n: "nat (int (length fs) - 14) = length fs - 14" by simp
  show ?thesis
    unfolding new_FilterImpl_def startsWith_iff substring_def Let_def length_OBJECTCLASS
    by (auto simp: n)
qed

text \<open>
  C5 (as amended). Compilation accepts every string of the form \<open>(objectClass=v)\<close>, storing
  \<open>v\<close> as the class name. It accepts a string exactly when the string has at least 14
  characters and carries \<open>objectClass\<close> at positions 1 to 11: the characters at positions
  0 and 12 and the last character are not inspected. A rejected string fails with
  \<open>UnsupportedOperationException\<close> (no \<open>objectClass\<close> at position 1) or with
  \<open>IndexOutOfBoundsException\<close> (fewer than 14 characters). A compiled filter matches a
  reference exactly when the reference's interface name equals the stored class name, the
  characters from position 13 up to the last but one.
\<close>

theorem FilterImpl_compile_match:
  "new_FilterImpl (''(objectClass='' @ v @ '')'') =
     Inr \<lparr>f_className = v, f_filterString = ''(objectClass='' @ v @ '')''\<rparr>
   \<and> (\<forall>sri. match \<lparr>f_className = v, f_filterString = ''(objectClass='' @ v @ '')''\<rparr> sri =
          (r_serviceName sri = v))
   \<and> ((\<exists>f. new_FilterImpl fs = Inr f) =
        (14 \<le> length fs \<and> take 11 (drop 1 fs) = OBJECTCLASS))
   \<and> (case new_FilterImpl fs of
         Inl e \<Rightarrow> e = UnsupportedOperationException \<or> e = IndexOutOfBoundsException
       | Inr f \<Rightarrow> f_className f = take (length fs - 14) (drop 13 fs)
            \<and> (\<forall>sri. match f sri = (r_serviceName sri = take (length fs - 14) (drop 13 fs))))"
proof -
  let ?s = "''(objectClass='' @ v @ '')''"
  have len: "length ?s = length v + 14" by simp
  have pre: "take 11 (drop 1 ?s) = OBJECTCLASS" by (simp add: OBJECTCLASS_def)
  have cn: "take (length ?s - 14) (drop 13 ?s) = v" by simp
  have a: "new_FilterImpl ?s = Inr \<lparr>f_className = v, f_filterString = ?s\<rparr>"
    unfolding new_FilterImpl_cases[of ?s] using pre cn len by simp
  have b: "\<forall>sri. match \<lparr>f_className = v, f_filterString = ?s\<rparr> sri = (r_serviceName sri = v)"
    by (simp add: match_def)
  have c: "(\<exists>f. new_FilterImpl fs = Inr f) =
        (14 \<le> length fs \<and> take 11 (drop 1 fs) = OBJECTCLASS)"
    unfolding new_FilterImpl_cases[of fs] by auto
  have d: "(case new_FilterImpl fs of
         Inl e \<Rightarrow> e = UnsupportedOperationException \<or> e = IndexOutOfBoundsException
       | Inr f \<Rightarrow> f_className f = take (length fs - 14) (drop 13 fs)
            \<and> (\<forall>sri. match f sri = (r_serviceName sri = take (length fs - 14) (drop 13 fs))))"
    unfolding new_FilterImpl_cases[of fs] by (simp add: match_def)
  from a b c d show ?thesis by blast
qed

text \<open>
  C5 as stated fails: a string that is not of the form \<open>(objectClass=v)\<close> (it neither
  starts with an opening parenthesis nor has \<open>=\<close> after the attribute name nor ends
  with a closing parenthesis) is compiled into a filter for the class name \<open>A\<close>.
\<close>

theorem FilterImpl_accepts_other_shape:
  "new_FilterImpl ''xobjectClassyAz'' =
     Inr \<lparr>f_className = ''A'', f_filterString = ''xobjectClassyAz''\<rparr>
   \<and> hd ''xobjectClassyAz'' \<noteq> CHR ''(''
   \<and> ''xobjectClassyAz'' ! 12 \<noteq> CHR ''=''
   \<and> last ''xobjectClassyAz'' \<noteq> CHR '')''"
  unfolding new_FilterImpl_cases[of "''xobjectClassyAz''"]
  by (simp add: OBJECTCLASS_def)
section \<open>Service tracker: event handling\<close>

lemma serviceChanged_UNREGISTERING:
  "ServiceListenerImpl_serviceChanged customizer
     \<lparr>getType = UNREGISTERING, getServiceReference = r\<rparr> t =
   removedService customizer r None
     (t\<lparr>t_trackedServices := (t_trackedServices t)(r := None),
        t_cachedService := None,
        t_trackingCount := t_trackingCount t + 1\<rparr>)"
  by (simp add: ServiceListenerImpl_serviceChanged_def getService_def Let_def
        REGISTERED_def MODIFIED_def UNREGISTERING_def)

text \<open>
  C3. On an \<open>UNREGISTERING\<close> event the tracker removes the mapping entry, clears the cache
  and increments the counter before it calls \<open>removedService\<close>, as claimed; but the service
  object it passes is read from the mapping after the removal and is always null. A tracker
  that maps reference 7 to service 42 calls \<open>removedService(7, null)\<close>: the recorded call
  carries \<open>None\<close> where the claim (and the customizer's documentation, and \<open>close()\<close>)
  has the service 42.
\<close>

theorem serviceChanged_UNREGISTERING_passes_null:
  "ServiceListenerImpl_serviceChanged (recorder None)
     \<lparr>getType = UNREGISTERING, getServiceReference = 7\<rparr> tracking =
   Some (Inr (), \<lparr>t_trackedServices = Map.empty, t_cachedService = None, t_trackingCount = 2,
                   t_world = [RemovedService 7 None None]\<rparr>)"
  unfolding serviceChanged_UNREGISTERING
  by (simp add: recorder_def tracking_def)

text \<open>
  C4 (as amended). On a \<open>REGISTERED\<close> event the tracker calls \<open>addingService\<close> on its state
  as the event finds it, before anything is inserted. When the customizer returns an
  object, the tracker (in the state the customizer left) maps the reference to that
  object, sets the cached service to that same object (the cache is not cleared, unless
  the object is null) and increments the counter; every other entry and the rest of the
  state are as the customizer left them. When the customizer throws, nothing is inserted.
\<close>

theorem serviceChanged_REGISTERED:
  "(addingService customizer r t = Some (Inr service, t') \<longrightarrow>
      (\<exists>t''. ServiceListenerImpl_serviceChanged customizer
               \<lparr>getType = REGISTERED, getServiceReference = r\<rparr> t = Some (Inr (), t'')
         \<and> t_trackedServices t'' = (t_trackedServices t')(r \<mapsto> service)
         \<and> getService t'' r = service
         \<and> t_cachedService t'' = service
         \<and> t_trackingCount t'' = t_trackingCount t' + 1
         \<and> t_world t'' = t_world t'))
   \<and> (addingService customizer r t = Some (Inl e, t') \<longrightarrow>
        ServiceListenerImpl_serviceChanged customizer
          \<lparr>getType = REGISTERED, getServiceReference = r\<rparr> t = Some (Inl e, t'))
   \<and> (addingService customizer r t = None \<longrightarrow>
        ServiceListenerImpl_serviceChanged customizer
          \<lparr>getType = REGISTERED, getServiceReference = r\<rparr> t = None)"
  by (simp add: ServiceListenerImpl_serviceChanged_def getService_def Let_def)

theorem serviceChanged_REGISTERED_witness:
  "\<exists>t''. ServiceListenerImpl_serviceChanged (recorder (Some 42))
            \<lparr>getType = REGISTERED, getServiceReference = 7\<rparr> opened = Some (Inr (), t'')
     \<and> getService t'' 7 = Some 42
     \<and> t_cachedService t'' = Some 42
     \<and> t_trackingCount t'' = 1
     \<and> t_world t'' = [AddingService 7 None]"
proof -
  have call: "addingService (recorder (Some 42)) 7 opened =
      Some (Inr (Some 42), opened\<lparr>t_world := [AddingService 7 None]\<rparr>)"
    by (simp add: recorder_def opened_def)
  from serviceChanged_REGISTERED[of "recorder (Some 42)" 7 opened "Some 42"
      "opened\<lparr>t_world := [AddingService 7 None]\<rparr>"] call
  show ?thesis by (auto simp: opened_def)
qed

text \<open>
  C4 as stated fails: after the \<open>REGISTERED\<close> event the single-entry cache is not
  invalidated, it holds the object the customizer returned.
\<close>

theorem serviceChanged_REGISTERED_sets_cache:
  "ServiceListenerImpl_serviceChanged (recorder (Some 42))
     \<lparr>getType = REGISTERED, getServiceReference = 7\<rparr> opened =
   Some (Inr (), \<lparr>t_trackedServices = [7 \<mapsto> Some 42], t_cachedService = Some 42,
                   t_trackingCount = 1, t_world = [AddingService 7 None]\<rparr>)"
  by (simp add: ServiceListenerImpl_serviceChanged_def recorder_def opened_def Let_def)

section \<open>Bundles and the registry: basic facts\<close>

lemma bundle_upd_simps [simp]:
  "bundles (bundle_upd b f s) = bundles s"
  "bundleAt (bundle_upd b f s) b' = (if b' = b then f (bundleAt s b) else bundleAt s b')"
  "referenceAt (bundle_upd b f s) = referenceAt s"
  "contextAt (bundle_upd b f s) = contextAt s"
  "allocated (bundle_upd b f s) = allocated s"
  "isErrorEnabled (bundle_upd b f s) = isErrorEnabled s"
  "logged (bundle_upd b f s) = logged s"
  "user (bundle_upd b f s) = user s"
  by (simp_all add: bundle_upd_def)

lemma reference_upd_simps [simp]:
  "bundles (reference_upd r f s) = bundles s"
  "bundleAt (reference_upd r f s) = bundleAt s"
  "referenceAt (reference_upd r f s) r' = (if r' = r then f (referenceAt s r) else referenceAt s r')"
  "contextAt (reference_upd r f s) = contextAt s"
  "allocated (reference_upd r f s) = allocated s"
  "isErrorEnabled (reference_upd r f s) = isErrorEnabled s"
  "logged (reference_upd r f s) = logged s"
  "user (reference_upd r f s) = user s"
  by (simp_all add: reference_upd_def)

lemma unregisterListeners_simps [simp]:
  "bundles (unregisterListeners b s) = bundles s"
  "bundleAt (unregisterListeners b s) b' =
     (if b' = b then (bundleAt s b)\<lparr>b_serviceListeners := [], b_serviceListenerFilters := []\<rparr>
      else bundleAt s b')"
  "referenceAt (unregisterListeners b s) = referenceAt s"
  "contextAt (unregisterListeners b s) = contextAt s"
  "allocated (unregisterListeners b s) = allocated s"
  "isErrorEnabled (unregisterListeners b s) = isErrorEnabled s"
  "logged (unregisterListeners b s) = logged s"
  "user (unregisterListeners b s) = user s"
  by (simp_all add: unregisterListeners_def)

lemma instanceOf_Throwable: "instanceOf c Throwable"
  by (cases c) (simp_all add: instanceOf.simps)

lemma newInstance_simps [simp]:
  "handle_class (newInstance c m) = c"
  "object_class (newInstance c m) = c"
  "has_message (newInstance c m) = m"
  by (simp_all add: newInstance_def)

lemma catch_Throwable_log_cases:
  "catch_Throwable_log body s =
     (case body s of
        None \<Rightarrow> None
      | Some (Inr u, s') \<Rightarrow> Some (Printed (Inr (), s'))
      | Some (Inl error, s') \<Rightarrow> Some (Logging_error error s'))"
  by (simp add: catch_Throwable_log_def instanceOf_Throwable split: option.splits sum.splits)

lemma Logging_error_printable:
  "printable e \<Longrightarrow>
   Logging_error e s =
     Printed (Inr (), if isErrorEnabled s then s\<lparr>logged := logged s @ [e]\<rparr> else s)"
  by (simp add: Logging_error_def printable_def)

lemma printable_newInstance [simp]:
  "printable (newInstance c True) \<longleftrightarrow> \<not> malformed c"
  by (simp add: printable_def)

lemma not_malformed [simp]:
  "\<not> malformed Exception" "\<not> malformed NullPointerException"
  "\<not> malformed IndexOutOfBoundsException" "\<not> malformed RuntimeException"
  "\<not> malformed Error"
  by (simp_all add: malformed_def)

text \<open>
  C10. When the registry already holds a bundle under the symbolic name and that bundle is
  not in state \<open>RESOLVED\<close>, \<open>start\<close> returns normally (the illegal-state exception is
  logged, when error logging is enabled), the bundle table and the bundle's state are
  unchanged, and the bundle is as before except for its context: the context is a newly
  constructed object, bound to the bundle, at an address that no bundle had as its
  context. Other bundles, the service references and the user state are unchanged.
\<close>

theorem start_of_unresolved_bundle:
  assumes found: "getBundle symbolicName s = Some b"
    and state: "b_state (bundleAt s b) \<noteq> RESOLVED"
    and alloc: "contexts_allocated s"
  shows "\<exists>s'. OSGiImpl_start A L symbolicName activator s = Some (Printed (Inr (), s'))
           \<and> bundles s' = bundles s
           \<and> b_state (bundleAt s' b) = b_state (bundleAt s b)
           \<and> bundleAt s' b = (bundleAt s b)\<lparr>b_context := Some (allocated s)\<rparr>
           \<and> contextAt s' (allocated s) = \<lparr>c_bundle = b\<rparr>
           \<and> b_context (bundleAt s' b) \<noteq> b_context (bundleAt s b)
           \<and> (\<forall>b'. b' \<noteq> b \<longrightarrow> bundleAt s' b' = bundleAt s b')
           \<and> referenceAt s' = referenceAt s
           \<and> user s' = user s
           \<and> isErrorEnabled s' = isErrorEnabled s
           \<and> logged s' =
               (if isErrorEnabled s then logged s @ [newInstance Exception True] else logged s)"
proof -
  let ?s2 = "s\<lparr>allocated := allocated s + 1,
               contextAt := (contextAt s)(allocated s := \<lparr>c_bundle = b\<rparr>)\<rparr>"
  let ?s3 = "bundle_upd b (\<lambda>B. B\<lparr>b_context := Some (allocated s)\<rparr>) ?s2"
  have body: "OSGiImpl_start_body A L symbolicName activator s =
      Some (Inl (newInstance Exception True), ?s3)"
    using found state by (simp add: OSGiImpl_start_body_def BundleImpl_start_def Let_def)
  have fresh: "b_context (bundleAt s b) \<noteq> Some (allocated s)"
    using alloc unfolding contexts_allocated_def by (metis less_irrefl)
  have "OSGiImpl_start A L symbolicName activator s =
      Some (Printed (Inr (),
        if isErrorEnabled ?s3 then ?s3\<lparr>logged := logged ?s3 @ [newInstance Exception True]\<rparr>
        else ?s3))"
    by (simp add: OSGiImpl_start_def catch_Throwable_log_cases body Logging_error_printable)
  then show ?thesis using fresh by (auto simp: bundle_upd_def)
qed


theorem start_of_unresolved_bundle_witness:
  "\<exists>s'. OSGiImpl_start scenario recording ''A'' (Some 7) published = Some (Printed (Inr (), s'))
     \<and> bundles s' = [0]
     \<and> b_state (bundleAt s' 0) = ACTIVE
     \<and> b_context (bundleAt published 0) = Some 1
     \<and> b_context (bundleAt s' 0) = Some 3
     \<and> logged s' = [newInstance Exception True]"
proof -
  have found: "getBundle ''A'' published = Some 0"
    by (simp add: getBundle_def published_def empty_registry_def)
  have state: "b_state (bundleAt published 0) \<noteq> RESOLVED"
    by (simp add: published_def empty_registry_def ACTIVE_def RESOLVED_def)
  have alloc: "contexts_allocated published"
    by (simp add: contexts_allocated_def published_def empty_registry_def new_BundleImpl_def)
  from start_of_unresolved_bundle[OF found state alloc, of scenario recording "Some 7"]
  obtain s' where s': "OSGiImpl_start scenario recording ''A'' (Some 7) published =
      Some (Printed (Inr (), s'))"
    "bundles s' = bundles published" "b_state (bundleAt s' 0) = b_state (bundleAt published 0)"
    "bundleAt s' 0 = (bundleAt published 0)\<lparr>b_context := Some (allocated published)\<rparr>"
    "logged s' = (if isErrorEnabled published
       then logged published @ [newInstance Exception True] else logged published)"
    by blast
  then show ?thesis
    by (intro exI[of _ s']) (simp add: published_def empty_registry_def)
qed
section \<open>Unregistration through a service registration\<close>

text \<open>
  C8 (as amended). A first call of \<open>unregister()\<close> that returns normally leaves the
  reference's owning-bundle link null. A second call on the same registration then
  dereferences that null link before anything else: it fires no event and attempts no
  removal, and has no defined behaviour.
\<close>

theorem unregister_twice:
  assumes "unregister L registration s = Some (Defined (Inr (), s'))"
  shows "r_bundle (referenceAt s' (g_serviceReference registration)) = None
       \<and> unregister L registration s' = Some NullDereference"
proof -
  have "r_bundle (referenceAt s' (g_serviceReference registration)) = None"
    using assms
    by (auto simp: unregister_def Let_def split: option.splits sum.splits prod.splits)
  then show ?thesis by (simp add: unregister_def Let_def)
qed

lemma fire_published:
  "fireServiceEvent recording \<lparr>getType = UNREGISTERING, getServiceReference = 2\<rparr> published
   = Some (Inr (), published\<lparr>user := [(9, UNREGISTERING, 2)]\<rparr>)"
  by (simp add: fireServiceEvent_def published_def empty_registry_def canonical_filter_def
        OBJECTCLASS_def fire_bundles.simps fire_listeners.simps FastTable_get_def recording_def)

lemma unregister_published:
  "unregister recording \<lparr>g_serviceReference = 2\<rparr> published =
   Some (Defined (Inr (),
     reference_upd 2 (\<lambda>R. R\<lparr>r_bundle := None\<rparr>)
       (bundle_upd 0 (\<lambda>B. B\<lparr>b_serviceReferences := remove1 2 (b_serviceReferences B)\<rparr>)
          (published\<lparr>user := [(9, UNREGISTERING, 2)]\<rparr>))))"
proof -
  have owner: "r_bundle (referenceAt published 2) = Some 0"
    by (simp add: published_def)
  show ?thesis
    by (simp add: unregister_def fire_published owner Let_def)
qed

theorem unregister_twice_witness:
  "\<exists>s'. unregister recording \<lparr>g_serviceReference = 2\<rparr> published = Some (Defined (Inr (), s'))
     \<and> user s' = [(9, UNREGISTERING, 2)]
     \<and> b_serviceReferences (bundleAt s' 0) = []
     \<and> r_bundle (referenceAt s' 2) = None
     \<and> unregister recording \<lparr>g_serviceReference = 2\<rparr> s' = Some NullDereference"
  using unregister_twice[OF unregister_published] unregister_published
  by (simp add: published_def empty_registry_def)

text \<open>
  C8 as stated fails: with service reference 2 published and listener 9 subscribed to its
  name, the first call delivers one \<open>UNREGISTERING\<close> event and returns; the second call
  on the state it leaves is the null dereference, it delivers nothing.
\<close>

theorem unregister_twice_fires_nothing:
  "(case unregister recording \<lparr>g_serviceReference = 2\<rparr> published of
      Some (Defined (Inr u, s')) \<Rightarrow>
        user s' = [(9, UNREGISTERING, 2)]
        \<and> unregister recording \<lparr>g_serviceReference = 2\<rparr> s' = Some NullDereference
    | _ \<Rightarrow> False)"
  by (simp add: unregister_published) (simp add: unregister_def)

section \<open>Listener and filter sequences\<close>

lemma FastTable_remove_Inr:
  "FastTable_remove xs index = Inr ys \<Longrightarrow>
   0 \<le> index \<and> nat index < length xs \<and> ys = take (nat index) xs @ drop (Suc (nat index)) xs"
  by (auto simp: FastTable_remove_def FastTable_get_def split: if_splits)

lemma FastTable_remove_in_range:
  "0 \<le> index \<Longrightarrow> nat index < length xs \<Longrightarrow>
   FastTable_remove xs index = Inr (take (nat index) xs @ drop (Suc (nat index)) xs)"
  by (auto simp: FastTable_remove_def FastTable_get_def)

lemma zip_remove_nth:
  assumes "length xs = length ys"
  shows "zip (take i xs @ drop (Suc i) xs) (take i ys @ drop (Suc i) ys) =
         take i (zip xs ys) @ drop (Suc i) (zip xs ys)"
  using assms by (simp add: zip_append take_zip drop_zip)

lemma set_zip_remove_nth:
  assumes "length xs = length ys"
  shows "set (zip (take i xs @ drop (Suc i) xs) (take i ys @ drop (Suc i) ys)) \<subseteq> set (zip xs ys)"
  unfolding zip_remove_nth[OF assms]
  by (auto dest: in_set_takeD in_set_dropD)

lemma after_op_step:
  assumes "all_aligned s"
  shows "all_aligned (after_op op s)
       \<and> contextAt (after_op op s) = contextAt s
       \<and> (\<forall>b. set (zip (b_serviceListeners (bundleAt (after_op op s) b))
                        (b_serviceListenerFilters (bundleAt (after_op op s) b)))
              \<subseteq> set (zip (b_serviceListeners (bundleAt s b))
                            (b_serviceListenerFilters (bundleAt s b)))
                \<union> registered_pairs s [op] b)"
proof (cases op)
  case (AddServiceListener c sl flt)
  show ?thesis
    using assms unfolding AddServiceListener
    by (auto simp: all_aligned_def addServiceListener_def Let_def registered_pairs_def)
next
  case (RemoveServiceListener c sl)
  let ?b = "c_bundle (contextAt s c)"
  let ?ls = "b_serviceListeners (bundleAt s ?b)"
  let ?fs = "b_serviceListenerFilters (bundleAt s ?b)"
  let ?i = "FastTable_indexOf ?ls sl"
  have len: "length ?ls = length ?fs" using assms by (simp add: all_aligned_def)
  show ?thesis
  proof (cases "FastTable_remove ?ls ?i")
    case (Inl e)
    then show ?thesis
      using assms unfolding RemoveServiceListener
      by (simp add: removeServiceListener_def Let_def)
  next
    case (Inr ls')
    from FastTable_remove_Inr[OF Inr]
    have i: "0 \<le> ?i" "nat ?i < length ?ls"
      and ls': "ls' = take (nat ?i) ?ls @ drop (Suc (nat ?i)) ?ls" by auto
    have fs': "FastTable_remove ?fs ?i = Inr (take (nat ?i) ?fs @ drop (Suc (nat ?i)) ?fs)"
      using i len by (simp add: FastTable_remove_in_range)
    have after: "after_op op s =
        bundle_upd ?b (\<lambda>B. B\<lparr>b_serviceListenerFilters := take (nat ?i) ?fs @ drop (Suc (nat ?i)) ?fs\<rparr>)
          (bundle_upd ?b (\<lambda>B. B\<lparr>b_serviceListeners := ls'\<rparr>) s)"
      unfolding RemoveServiceListener
      by (simp add: removeServiceListener_def Let_def Inr fs')
    have sub: "set (zip ls' (take (nat ?i) ?fs @ drop (Suc (nat ?i)) ?fs)) \<subseteq> set (zip ?ls ?fs)"
      unfolding ls' by (rule set_zip_remove_nth[OF len])
    have len': "length ls' = length (take (nat ?i) ?fs @ drop (Suc (nat ?i)) ?fs)"
      using len ls' by simp
    show ?thesis
      unfolding after using assms sub len'
      by (auto simp: all_aligned_def)
  qed
next
  case (UnregisterListeners b)
  show ?thesis
    using assms unfolding UnregisterListeners
    by (auto simp: all_aligned_def)
qed

lemma registered_pairs_Cons:
  "registered_pairs s (op # ops) b = registered_pairs s [op] b \<union> registered_pairs s ops b"
  by (auto simp: registered_pairs_def)

lemma after_ops_invariant:
  "all_aligned s \<Longrightarrow>
   all_aligned (after_ops ops s)
   \<and> set (zip (b_serviceListeners (bundleAt (after_ops ops s) b))
              (b_serviceListenerFilters (bundleAt (after_ops ops s) b)))
     \<subseteq> set (zip (b_serviceListeners (bundleAt s b)) (b_serviceListenerFilters (bundleAt s b)))
       \<union> registered_pairs s ops b"
proof (induction ops arbitrary: s)
  case Nil
  then show ?case by simp
next
  case (Cons op ops)
  from after_op_step[OF Cons.prems, of op]
  have al: "all_aligned (after_op op s)"
    and ctx: "contextAt (after_op op s) = contextAt s"
    and sub: "set (zip (b_serviceListeners (bundleAt (after_op op s) b))
                       (b_serviceListenerFilters (bundleAt (after_op op s) b)))
              \<subseteq> set (zip (b_serviceListeners (bundleAt s b))
                            (b_serviceListenerFilters (bundleAt s b)))
                \<union> registered_pairs s [op] b"
    by blast+
  have same: "registered_pairs (after_op op s) ops b = registered_pairs s ops b"
    by (simp add: registered_pairs_def ctx)
  from Cons.IH[OF al] same sub show ?case
    unfolding registered_pairs_Cons[of s op ops b] by auto
qed

text \<open>
  C9. Starting from a state in which every bundle's listener and filter sequences have the
  same length (as they have in a new bundle, where both are empty), after any sequence of
  \<open>addServiceListener\<close>, \<open>removeServiceListener\<close> and teardown calls, on any contexts and
  bundles and whether the calls return or throw, the two sequences of every bundle have
  the same length, and the listener and the filter string at an index are a pair that
  one \<open>addServiceListener\<close> call on this bundle registered together (or a pair that was
  at one index at the start).
\<close>

theorem listener_filter_alignment:
  assumes "all_aligned s"
  shows "length (b_serviceListeners (bundleAt (after_ops ops s) b)) =
         length (b_serviceListenerFilters (bundleAt (after_ops ops s) b))
       \<and> (\<forall>i < length (b_serviceListeners (bundleAt (after_ops ops s) b)).
            (b_serviceListeners (bundleAt (after_ops ops s) b) ! i,
             b_serviceListenerFilters (bundleAt (after_ops ops s) b) ! i)
            \<in> set (zip (b_serviceListeners (bundleAt s b)) (b_serviceListenerFilters (bundleAt s b)))
              \<union> registered_pairs s ops b)"
proof -
  let ?s = "after_ops ops s"
  let ?ls = "b_serviceListeners (bundleAt ?s b)" and ?fs = "b_serviceListenerFilters (bundleAt ?s b)"
  from after_ops_invariant[OF assms, of ops b]
  have al: "all_aligned ?s"
    and sub: "set (zip ?ls ?fs)
      \<subseteq> set (zip (b_serviceListeners (bundleAt s b)) (b_serviceListenerFilters (bundleAt s b)))
        \<union> registered_pairs s ops b"
    by blast+
  have len: "length ?ls = length ?fs" using al by (simp add: all_aligned_def)
  have "(?ls ! i, ?fs ! i) \<in> set (zip ?ls ?fs)" if "i < length ?ls" for i
    using that len by (auto simp: set_zip)
  with sub len show ?thesis by blast
qed

lemma after_subscription_calls:
  "bundleAt (after_ops subscription_calls (resolved_A 1)) 0 =
     \<lparr>b_symbolicName = ''A'', b_activator = Some 1, b_state = RESOLVED,
      b_serviceReferences = [], b_serviceListeners = [Some 8],
      b_serviceListenerFilters = [Some ''(objectClass=Y)''], b_context = Some 1\<rparr>"
  by (simp add: subscription_calls_def resolved_A_def empty_registry_def new_BundleImpl_def
        addServiceListener_def removeServiceListener_def FastTable_remove_def FastTable_get_def
        FastTable_indexOf_def Let_def)

theorem listener_filter_alignment_witness:
  "length (b_serviceListeners (bundleAt (after_ops subscription_calls (resolved_A 1)) 0)) =
   length (b_serviceListenerFilters (bundleAt (after_ops subscription_calls (resolved_A 1)) 0))
   \<and> b_serviceListeners (bundleAt (after_ops subscription_calls (resolved_A 1)) 0) = [Some 8]
   \<and> b_serviceListenerFilters (bundleAt (after_ops subscription_calls (resolved_A 1)) 0) =
       [Some ''(objectClass=Y)'']
   \<and> (Some 8, Some ''(objectClass=Y)'') \<in> registered_pairs (resolved_A 1) subscription_calls 0"
proof -
  have al: "all_aligned (resolved_A 1)"
    by (simp add: all_aligned_def resolved_A_def empty_registry_def new_BundleImpl_def)
  from listener_filter_alignment[OF al, of subscription_calls 0]
  have len: "length (b_serviceListeners (bundleAt (after_ops subscription_calls (resolved_A 1)) 0)) =
      length (b_serviceListenerFilters (bundleAt (after_ops subscription_calls (resolved_A 1)) 0))"
    and mem: "\<forall>i < length (b_serviceListeners (bundleAt (after_ops subscription_calls (resolved_A 1)) 0)).
      (b_serviceListeners (bundleAt (after_ops subscription_calls (resolved_A 1)) 0) ! i,
       b_serviceListenerFilters (bundleAt (after_ops subscription_calls (resolved_A 1)) 0) ! i)
      \<in> set (zip (b_serviceListeners (bundleAt (resolved_A 1) 0))
                  (b_serviceListenerFilters (bundleAt (resolved_A 1) 0)))
        \<union> registered_pairs (resolved_A 1) subscription_calls 0"
    by blast+
  have init: "b_serviceListeners (bundleAt (resolved_A 1) 0) = []"
    by (simp add: resolved_A_def empty_registry_def new_BundleImpl_def)
  have "(Some 8, Some ''(objectClass=Y)'') \<in> registered_pairs (resolved_A 1) subscription_calls 0"
    using mem[rule_format, of 0] unfolding after_subscription_calls init by simp
  with len show ?thesis unfolding after_subscription_calls by simp
qed

section \<open>Termination of the framework's loops\<close>

lemma user_update_id: "\<exists>u. s = s\<lparr>user := u\<rparr>"
  by (rule exI[of _ "user s"]) simp

lemma fire_listeners_only_user:
  assumes L: "only_user L"
  shows "\<exists>r u. fire_listeners L ev c b j s = Some (r, s\<lparr>user := u\<rparr>)"
proof (induction "length (b_serviceListenerFilters (bundleAt s b)) - j" arbitrary: j s)
  case 0
  then have "fire_listeners L ev c b j s = Some (Inr (), s)"
    by (subst fire_listeners.simps) simp
  then show ?case using user_update_id[of s] by metis
next
  case (Suc n)
  then have j: "j < length (b_serviceListenerFilters (bundleAt s b))" by simp
  show ?case
  proof (cases "Some c = b_serviceListenerFilters (bundleAt s b) ! j")
    case False
    have "fire_listeners L ev c b j s = fire_listeners L ev c b (j + 1) s"
      using j False by (subst fire_listeners.simps) simp
    moreover have "n = length (b_serviceListenerFilters (bundleAt s b)) - (j + 1)"
      using Suc.hyps(2) by simp
    ultimately show ?thesis using Suc.hyps(1)[of s "j + 1"] by simp
  next
    case True
    show ?thesis
    proof (cases "FastTable_get (b_serviceListeners (bundleAt s b)) (int j)")
      case (Inl e)
      then have "fire_listeners L ev c b j s = Some (Inl (newInstance e True), s)"
        using j True by (subst fire_listeners.simps) simp
      then show ?thesis using user_update_id[of s] by metis
    next
      case (Inr sl)
      show ?thesis
      proof (cases sl)
        case None
        then have "fire_listeners L ev c b j s = Some (Inl (newInstance NullPointerException True), s)"
          using j True Inr by (subst fire_listeners.simps) simp
        then show ?thesis using user_update_id[of s] by metis
      next
        case (Some l)
        from L obtain r u where call: "L l ev s = Some (r, s\<lparr>user := u\<rparr>)"
          unfolding only_user_def by blast
        show ?thesis
        proof (cases r)
          case (Inl e)
          then have "fire_listeners L ev c b j s = Some (Inl e, s\<lparr>user := u\<rparr>)"
            using j True Inr Some call by (subst fire_listeners.simps) simp
          then show ?thesis by blast
        next
          case (Inr x)
          then have step: "fire_listeners L ev c b j s =
              fire_listeners L ev c b (j + 1) (s\<lparr>user := u\<rparr>)"
            using j True \<open>FastTable_get (b_serviceListeners (bundleAt s b)) (int j) = Inr sl\<close>
              Some call by (subst fire_listeners.simps) simp
          have "n = length (b_serviceListenerFilters (bundleAt (s\<lparr>user := u\<rparr>) b)) - (j + 1)"
            using Suc.hyps(2) by simp
          from Suc.hyps(1)[OF this] obtain r' u' where
            "fire_listeners L ev c b (j + 1) (s\<lparr>user := u\<rparr>) = Some (r', s\<lparr>user := u\<rparr>\<lparr>user := u'\<rparr>)"
            by blast
          with step show ?thesis by (intro exI[of _ r'] exI[of _ u']) simp
        qed
      qed
    qed
  qed
qed

lemma fire_bundles_only_user:
  assumes L: "only_user L"
  shows "\<exists>r u. fire_bundles L ev c i s = Some (r, s\<lparr>user := u\<rparr>)"
proof (induction "length (bundles s) - i" arbitrary: i s)
  case 0
  then have "fire_bundles L ev c i s = Some (Inr (), s)"
    by (subst fire_bundles.simps) simp
  then show ?case using user_update_id[of s] by metis
next
  case (Suc n)
  then have i: "i < length (bundles s)" by simp
  from fire_listeners_only_user[OF L, of ev c "bundles s ! i" 0 s]
  obtain r u where inner: "fire_listeners L ev c (bundles s ! i) 0 s = Some (r, s\<lparr>user := u\<rparr>)"
    by blast
  show ?case
  proof (cases r)
    case (Inl e)
    then have "fire_bundles L ev c i s = Some (Inl e, s\<lparr>user := u\<rparr>)"
      using i inner by (subst fire_bundles.simps) simp
    then show ?thesis by blast
  next
    case (Inr x)
    then have step: "fire_bundles L ev c i s = fire_bundles L ev c (i + 1) (s\<lparr>user := u\<rparr>)"
      using i inner by (subst fire_bundles.simps) simp
    have "n = length (bundles (s\<lparr>user := u\<rparr>)) - (i + 1)"
      using Suc.hyps(2) by simp
    from Suc.hyps(1)[OF this] obtain r' u' where
      "fire_bundles L ev c (i + 1) (s\<lparr>user := u\<rparr>) = Some (r', s\<lparr>user := u\<rparr>\<lparr>user := u'\<rparr>)"
      by blast
    with step show ?thesis by (intro exI[of _ r'] exI[of _ u']) simp
  qed
qed

lemma fireServiceEvent_only_user:
  "only_user L \<Longrightarrow> \<exists>r u. fireServiceEvent L ev s = Some (r, s\<lparr>user := u\<rparr>)"
  unfolding fireServiceEvent_def Let_def by (rule fire_bundles_only_user)

text \<open>The loop of \<open>unregisterServices\<close> changes the user state and the references only.\<close>

lemma unregisterServices_loop_only_user:
  assumes L: "only_user L"
  shows "\<exists>r u h. unregisterServices_loop L this i s = Some (r, s\<lparr>referenceAt := h, user := u\<rparr>)"
proof (induction "length (b_serviceReferences (bundleAt s this)) - i" arbitrary: i s)
  case 0
  then have "unregisterServices_loop L this i s = Some (Inr (), s)"
    by (subst unregisterServices_loop.simps) simp
  moreover have "s = s\<lparr>referenceAt := referenceAt s, user := user s\<rparr>" by simp
  ultimately show ?case by metis
next
  case (Suc n)
  then have i: "i < length (b_serviceReferences (bundleAt s this))" by simp
  let ?r = "b_serviceReferences (bundleAt s this) ! i"
  from fireServiceEvent_only_user[OF L, of "\<lparr>getType = UNREGISTERING, getServiceReference = ?r\<rparr>" s]
  obtain r u where fire: "fireServiceEvent L \<lparr>getType = UNREGISTERING, getServiceReference = ?r\<rparr> s
      = Some (r, s\<lparr>user := u\<rparr>)"
    by blast
  show ?case
  proof (cases r)
    case (Inl e)
    then have "unregisterServices_loop L this i s = Some (Inl e, s\<lparr>user := u\<rparr>)"
      using i fire by (subst unregisterServices_loop.simps) (simp add: Let_def)
    moreover have "s\<lparr>user := u\<rparr> = s\<lparr>referenceAt := referenceAt s, user := u\<rparr>" by simp
    ultimately show ?thesis by metis
  next
    case (Inr x)
    let ?s' = "reference_upd ?r (\<lambda>R. R\<lparr>r_bundle := None\<rparr>) (s\<lparr>user := u\<rparr>)"
    have step: "unregisterServices_loop L this i s = unregisterServices_loop L this (i + 1) ?s'"
      using i fire Inr by (subst unregisterServices_loop.simps) (simp add: Let_def)
    have "n = length (b_serviceReferences (bundleAt ?s' this)) - (i + 1)"
      using Suc.hyps(2) by simp
    from Suc.hyps(1)[OF this] obtain r' u' h' where
      "unregisterServices_loop L this (i + 1) ?s' = Some (r', ?s'\<lparr>referenceAt := h', user := u'\<rparr>)"
      by blast
    moreover have "?s'\<lparr>referenceAt := h', user := u'\<rparr> = s\<lparr>referenceAt := h', user := u'\<rparr>"
      by (simp add: reference_upd_def)
    ultimately show ?thesis using step by metis
  qed
qed

lemma unregisterServices_returns:
  assumes L: "only_user L"
  shows "\<exists>r s'. unregisterServices L this s = Some (r, s')"
proof -
  from unregisterServices_loop_only_user[OF L, of this 0 s]
  obtain r u h where "unregisterServices_loop L this 0 s = Some (r, s\<lparr>referenceAt := h, user := u\<rparr>)"
    by blast
  then show ?thesis by (cases r) (simp_all add: unregisterServices_def)
qed

lemma call_start_returns: "returning A \<Longrightarrow> \<exists>r s'. call_start A this s = Some (r, s')"
  unfolding returning_def call_start_def
  by (cases "b_activator (bundleAt s this)") (auto simp: )

lemma call_stop_returns: "returning A \<Longrightarrow> \<exists>r s'. call_stop A this s = Some (r, s')"
  unfolding returning_def call_stop_def
  by (cases "b_activator (bundleAt s this)") (auto simp: )

lemma BundleImpl_start_returns:
  assumes A: "returning A" and L: "only_user L"
  shows "\<exists>r s'. BundleImpl_start A L this s = Some (r, s')"
proof (cases "b_state (bundleAt s this) \<noteq> RESOLVED")
  case True
  then show ?thesis by (simp add: BundleImpl_start_def)
next
  case False
  let ?s1 = "bundle_upd this (\<lambda>B. B\<lparr>b_state := STARTING\<rparr>) s"
  from call_start_returns[OF A, of this ?s1]
  obtain r s2 where call: "call_start A this ?s1 = Some (r, s2)" by blast
  let ?s3 = "bundle_upd this (\<lambda>B. B\<lparr>b_state := STOPPING\<rparr>) s2"
  from unregisterServices_returns[OF L, of this ?s3]
  obtain r' s4 where un: "unregisterServices L this ?s3 = Some (r', s4)" by blast
  show ?thesis
    using False call un
    by (cases r; cases r') (simp_all add: BundleImpl_start_def Let_def)
qed

lemma BundleImpl_stop_returns:
  assumes A: "returning A" and L: "only_user L"
  shows "\<exists>r s'. BundleImpl_stop A L this s = Some (r, s')"
proof (cases "b_state (bundleAt s this) \<noteq> ACTIVE")
  case True
  then show ?thesis by (simp add: BundleImpl_stop_def)
next
  case False
  let ?s1 = "bundle_upd this (\<lambda>B. B\<lparr>b_state := STOPPING\<rparr>) s"
  from call_stop_returns[OF A, of this ?s1]
  obtain r s2 where call: "call_stop A this ?s1 = Some (r, s2)" by blast
  from unregisterServices_returns[OF L, of this s2]
  obtain r' s3 where un: "unregisterServices L this s2 = Some (r', s3)" by blast
  show ?thesis
    using False call un
    by (cases r; cases r') (simp_all add: BundleImpl_stop_def Let_def)
qed


section \<open>Event delivery\<close>

lemma deliver_append:
  "deliver L ev (xs @ ys) s =
     (case deliver L ev xs s of
        None \<Rightarrow> None
      | Some (Inl e, s') \<Rightarrow> Some (Inl e, s')
      | Some (Inr u, s') \<Rightarrow> deliver L ev ys s')"
  by (induction xs arbitrary: s) (auto split: option.splits sum.splits)

lemma same_subscriptions_refl [simp]: "same_subscriptions s s"
  by (simp add: same_subscriptions_def)

lemma same_subscriptions_trans:
  "same_subscriptions s s' \<Longrightarrow> same_subscriptions s' s'' \<Longrightarrow> same_subscriptions s s''"
  by (simp add: same_subscriptions_def)

lemma deliver_keeps:
  assumes L: "keeps_subscriptions L ev X"
  shows "\<forall>l. Some l \<in> set ls \<longrightarrow> l \<in> X \<Longrightarrow> deliver L ev ls s = Some (r, s') \<Longrightarrow>
         same_subscriptions s s'"
proof (induction ls arbitrary: s)
  case Nil
  then show ?case by simp
next
  case (Cons sl ls)
  show ?case
  proof (cases sl)
    case None
    with Cons.prems show ?thesis by simp
  next
    case (Some l)
    from Cons.prems(2) Some obtain r1 s1 where call: "L l ev s = Some (r1, s1)"
      by (cases "L l ev s") auto
    from Cons.prems(1) Some have "l \<in> X" by simp
    with L call have k: "same_subscriptions s s1"
      unfolding keeps_subscriptions_def by blast
    show ?thesis
    proof (cases r1)
      case (Inl e)
      with Cons.prems(2) Some call k show ?thesis by simp
    next
      case (Inr u)
      with Cons.prems(2) Some call have "deliver L ev ls s1 = Some (r, s')" by simp
      moreover from Cons.prems(1) have "\<forall>l. Some l \<in> set ls \<longrightarrow> l \<in> X" by simp
      ultimately have "same_subscriptions s1 s'" by (rule Cons.IH[rotated])
      with k show ?thesis by (rule same_subscriptions_trans)
    qed
  qed
qed

lemma recipients_same:
  "same_subscriptions s s' \<Longrightarrow>
   map (listener_at s') (subscribed_in c s' b j) = map (listener_at s) (subscribed_in c s b j)"
  by (simp add: same_subscriptions_def subscribed_in_def listener_at_def)

lemma within_same: "same_subscriptions s s' \<Longrightarrow> within X c s' b j = within X c s b j"
  by (simp add: same_subscriptions_def within_def)

lemma within_later: "within X c s b j \<Longrightarrow> j \<le> j' \<Longrightarrow> within X c s b j'"
  unfolding within_def by (meson order_trans)

lemma within_recipients:
  assumes "within X c s b j"
  shows "\<forall>l. Some l \<in> set (map (listener_at s) (subscribed_in c s b j)) \<longrightarrow> l \<in> X"
  using assms by (auto simp: within_def subscribed_in_def listener_at_def)

lemma subscribed_in_step:
  assumes "j < length (b_serviceListenerFilters (bundleAt s b))"
  shows "subscribed_in c s b j =
     (if b_serviceListenerFilters (bundleAt s b) ! j = Some c then [(b, j)] else [])
     @ subscribed_in c s b (j + 1)"
  using assms by (simp add: subscribed_in_def upt_conv_Cons)

lemma subscribed_in_done:
  "\<not> j < length (b_serviceListenerFilters (bundleAt s b)) \<Longrightarrow> subscribed_in c s b j = []"
  by (simp add: subscribed_in_def)

text \<open>
  The inner loop, from index \<open>j\<close> on, is the delivery to the listeners of the matching
  subscriptions from that index on, as long as the listeners that are called leave the
  subscriptions as they are.
\<close>

lemma fire_listeners_deliver:
  assumes L: "keeps_subscriptions L ev X"
  shows "within X c s b j \<Longrightarrow>
     fire_listeners L ev c b j s = deliver L ev (map (listener_at s) (subscribed_in c s b j)) s"
proof (induction "length (b_serviceListenerFilters (bundleAt s b)) - j" arbitrary: j s)
  case 0
  then have over: "\<not> j < length (b_serviceListenerFilters (bundleAt s b))" by simp
  then show ?case
    by (subst fire_listeners.simps) (simp add: subscribed_in_done)
next
  case (Suc n)
  then have j: "j < length (b_serviceListenerFilters (bundleAt s b))" by simp
  have n: "n = length (b_serviceListenerFilters (bundleAt s b)) - (j + 1)"
    using Suc.hyps(2) by simp
  have later: "within X c s b (j + 1)"
    using Suc.prems by (rule within_later) simp
  note step = subscribed_in_step[OF j, of c]
  show ?case
  proof (cases "Some c = b_serviceListenerFilters (bundleAt s b) ! j")
    case False
    then have "fire_listeners L ev c b j s = fire_listeners L ev c b (j + 1) s"
      using j by (subst fire_listeners.simps) simp
    also have "\<dots> = deliver L ev (map (listener_at s) (subscribed_in c s b (j + 1))) s"
      using Suc.hyps(1)[OF n later] .
    finally show ?thesis using False step by auto
  next
    case True
    from Suc.prems j True
    have range: "j < length (b_serviceListeners (bundleAt s b))"
      and inX: "\<forall>l. b_serviceListeners (bundleAt s b) ! j = Some l \<longrightarrow> l \<in> X"
      unfolding within_def by (metis order_refl)+
    have get: "FastTable_get (b_serviceListeners (bundleAt s b)) (int j) =
        Inr (b_serviceListeners (bundleAt s b) ! j)"
      using range by (simp add: FastTable_get_def)
    have list: "map (listener_at s) (subscribed_in c s b j) =
        b_serviceListeners (bundleAt s b) ! j # map (listener_at s) (subscribed_in c s b (j + 1))"
      using True step by (simp add: listener_at_def)
    show ?thesis
    proof (cases "b_serviceListeners (bundleAt s b) ! j")
      case None
      then show ?thesis
        unfolding list using j True get by (subst fire_listeners.simps) simp
    next
      case (Some l)
      with inX have lX: "l \<in> X" by simp
      show ?thesis
      proof (cases "L l ev s")
        case None
        then show ?thesis
          unfolding list using j True get Some by (subst fire_listeners.simps) simp
      next
        case call: (Some res)
        obtain r s' where res: "res = (r, s')" by (cases res)
        from L lX call res have k: "same_subscriptions s s'"
          unfolding keeps_subscriptions_def by blast
        show ?thesis
        proof (cases r)
          case (Inl e)
          then show ?thesis
            unfolding list using j True get Some call res
            by (subst fire_listeners.simps) simp
        next
          case (Inr u)
          have n': "n = length (b_serviceListenerFilters (bundleAt s' b)) - (j + 1)"
            using n k by (simp add: same_subscriptions_def)
          have later': "within X c s' b (j + 1)"
            using later by (simp add: within_same[OF k])
          have "fire_listeners L ev c b j s = fire_listeners L ev c b (j + 1) s'"
            using j True get Some call res Inr by (subst fire_listeners.simps) simp
          also have "\<dots> = deliver L ev (map (listener_at s') (subscribed_in c s' b (j + 1))) s'"
            using Suc.hyps(1)[OF n' later'] .
          also have "\<dots> = deliver L ev (map (listener_at s) (subscribed_in c s b (j + 1))) s'"
            by (simp add: recipients_same[OF k])
          finally show ?thesis
            unfolding list using Some call res Inr by simp
        qed
      qed
    qed
  qed
qed

lemma recipients_from_same:
  "same_subscriptions s s' \<Longrightarrow> recipients_from c s' i = recipients_from c s i"
  unfolding recipients_from_def
  by (simp add: recipients_same) (simp add: same_subscriptions_def)

lemma recipients_from_step:
  "i < length (bundles s) \<Longrightarrow>
   recipients_from c s i =
     map (listener_at s) (subscribed_in c s (bundles s ! i) 0) @ recipients_from c s (i + 1)"
  unfolding recipients_from_def by (simp add: Cons_nth_drop_Suc[symmetric])

lemma fire_bundles_deliver:
  assumes L: "keeps_subscriptions L ev X"
  shows "\<forall>b \<in> set (drop i (bundles s)). within X c s b 0 \<Longrightarrow>
     fire_bundles L ev c i s = deliver L ev (recipients_from c s i) s"
proof (induction "length (bundles s) - i" arbitrary: i s)
  case 0
  then show ?case
    by (subst fire_bundles.simps) (simp add: recipients_from_def)
next
  case (Suc n)
  then have i: "i < length (bundles s)" by simp
  let ?b = "bundles s ! i"
  let ?xs = "map (listener_at s) (subscribed_in c s ?b 0)"
  have d: "drop i (bundles s) = ?b # drop (i + 1) (bundles s)"
    using i by (simp add: Cons_nth_drop_Suc)
  from Suc.prems have w: "within X c s ?b 0"
    and rest: "\<forall>b \<in> set (drop (i + 1) (bundles s)). within X c s b 0"
    unfolding d by simp_all
  have inner: "fire_listeners L ev c ?b 0 s = deliver L ev ?xs s"
    by (rule fire_listeners_deliver[OF L w])
  show ?case
  proof (cases "deliver L ev ?xs s")
    case None
    then show ?thesis
      unfolding recipients_from_step[OF i] deliver_append
      using i inner by (subst fire_bundles.simps) simp
  next
    case (Some res)
    obtain r s' where res: "res = (r, s')" by (cases res)
    from deliver_keeps[OF L within_recipients[OF w]] Some res
    have k: "same_subscriptions s s'" by blast
    show ?thesis
    proof (cases r)
      case (Inl e)
      then show ?thesis
        unfolding recipients_from_step[OF i] deliver_append
        using i inner Some res by (subst fire_bundles.simps) simp
    next
      case (Inr u)
      have n': "n = length (bundles s') - (i + 1)"
        using Suc.hyps(2) k by (simp add: same_subscriptions_def)
      have rest': "\<forall>b \<in> set (drop (i + 1) (bundles s')). within X c s' b 0"
        using rest k by (simp add: within_same[OF k]) (simp add: same_subscriptions_def)
      have "fire_bundles L ev c i s = fire_bundles L ev c (i + 1) s'"
        using i inner Some res Inr by (subst fire_bundles.simps) simp
      also have "\<dots> = deliver L ev (recipients_from c s' (i + 1)) s'"
        using Suc.hyps(1)[OF n' rest'] .
      also have "\<dots> = deliver L ev (recipients_from c s (i + 1)) s'"
        by (simp add: recipients_from_same[OF k])
      finally show ?thesis
        unfolding recipients_from_step[OF i] deliver_append
        using Some res Inr by simp
    qed
  qed
qed

lemma recipients_from_0: "recipients_from c s 0 = map (listener_at s) (subscribed c s)"
  by (simp add: recipients_from_def subscribed_def map_concat comp_def)

lemma fireServiceEvent_deliver:
  assumes "keeps_subscriptions L ev X"
    and "\<forall>b \<in> set (bundles s).
           within X (canonical_filter (r_serviceName (referenceAt s (getServiceReference ev)))) s b 0"
  shows "fireServiceEvent L ev s =
     deliver L ev
       (map (listener_at s)
          (subscribed (canonical_filter (r_serviceName (referenceAt s (getServiceReference ev)))) s)) s"
  unfolding fireServiceEvent_def Let_def
  using fire_bundles_deliver[OF assms(1), of 0 s] assms(2)
  by (simp add: recipients_from_0)

lemma set_subscribed:
  "set (subscribed flt s) =
     {(b, j). b \<in> set (bundles s) \<and> j < length (b_serviceListenerFilters (bundleAt s b))
        \<and> b_serviceListenerFilters (bundleAt s b) ! j = Some flt}"
  by (auto simp: subscribed_def subscribed_in_def)












text \<open>
  A listener that throws ends the delivery: the listeners of the later subscriptions are
  not called. Here listener 9 of bundle 0 throws and listener 7 of bundle 5 is not called.
\<close>

lemma fireServiceEvent_interrupted:
  "fireServiceEvent refusing \<lparr>getType = UNREGISTERING, getServiceReference = 2\<rparr> two_bundles =
     Some (Inl (newInstance RuntimeException True), two_bundles)"
  by (simp add: fireServiceEvent_def two_bundles_def empty_registry_def canonical_filter_def
        OBJECTCLASS_def fire_bundles.simps fire_listeners.simps FastTable_get_def refusing_def)

section \<open>Rollback of a failed start\<close>

lemma answered_frame:
  assumes "bundles s' = bundles s"
    and "\<And>b. b_serviceListeners (bundleAt s' b) = b_serviceListeners (bundleAt s b)"
    and "\<And>b. b_serviceListenerFilters (bundleAt s' b) = b_serviceListenerFilters (bundleAt s b)"
    and "r_serviceName (referenceAt s' (getServiceReference ev)) =
         r_serviceName (referenceAt s (getServiceReference ev))"
  shows "answered L ev s' = answered L ev s"
  by (simp add: answered_def subscribed_def subscribed_in_def assms)

lemma answered_keeps:
  assumes "answered L ev s"
  shows "keeps_subscriptions L ev
     (called (canonical_filter (r_serviceName (referenceAt s (getServiceReference ev)))) s)"
  unfolding keeps_subscriptions_def
proof (intro ballI allI impI)
  fix l s1 r s2
  let ?c = "canonical_filter (r_serviceName (referenceAt s (getServiceReference ev)))"
  assume "l \<in> called ?c s" and call: "L l ev s1 = Some (r, s2)"
  then obtain b j where bj: "(b, j) \<in> set (subscribed ?c s)"
    and l: "b_serviceListeners (bundleAt s b) ! j = Some l"
    unfolding called_def listener_at_def by auto
  from assms bj l have "\<forall>s1. \<exists>u. L l ev s1 = Some (Inr (), s1\<lparr>user := u\<rparr>)"
    unfolding answered_def by fastforce
  then obtain u where "L l ev s1 = Some (Inr (), s1\<lparr>user := u\<rparr>)" by blast
  with call have "s2 = s1\<lparr>user := u\<rparr>" by simp
  then show "same_subscriptions s1 s2" by (simp add: same_subscriptions_def)
qed

lemma answered_within:
  assumes "answered L ev s" and "b \<in> set (bundles s)"
  shows "within (called (canonical_filter (r_serviceName (referenceAt s (getServiceReference ev)))) s)
     (canonical_filter (r_serviceName (referenceAt s (getServiceReference ev)))) s b 0"
  unfolding within_def
proof (intro allI impI conjI)
  let ?c = "canonical_filter (r_serviceName (referenceAt s (getServiceReference ev)))"
  fix k
  assume "0 \<le> k \<and> k < length (b_serviceListenerFilters (bundleAt s b)) \<and>
      b_serviceListenerFilters (bundleAt s b) ! k = Some ?c"
  with assms(2) have bk: "(b, k) \<in> set (subscribed ?c s)"
    by (simp add: set_subscribed)
  with assms(1) show "k < length (b_serviceListeners (bundleAt s b))"
    unfolding answered_def by fastforce
  fix l
  assume "b_serviceListeners (bundleAt s b) ! k = Some l"
  with bk show "l \<in> called ?c s"
    unfolding called_def listener_at_def by force
qed

lemma deliver_answered:
  "\<forall>x \<in> set ls. \<exists>l. x = Some l \<and> (\<forall>s1. \<exists>u. L l ev s1 = Some (Inr (), s1\<lparr>user := u\<rparr>)) \<Longrightarrow>
   \<exists>u. deliver L ev ls s = Some (Inr (), s\<lparr>user := u\<rparr>)"
proof (induction ls arbitrary: s)
  case Nil
  show ?case using user_update_id[of s] by simp
next
  case (Cons sl ls)
  then obtain l where sl: "sl = Some l"
    and q: "\<forall>s1. \<exists>u. L l ev s1 = Some (Inr (), s1\<lparr>user := u\<rparr>)" by auto
  from q obtain u where call: "L l ev s = Some (Inr (), s\<lparr>user := u\<rparr>)" by blast
  from Cons.prems
  have "\<forall>x \<in> set ls. \<exists>l. x = Some l \<and> (\<forall>s1. \<exists>u. L l ev s1 = Some (Inr (), s1\<lparr>user := u\<rparr>))"
    by simp
  from Cons.IH[OF this, of "s\<lparr>user := u\<rparr>"]
  obtain u' where "deliver L ev ls (s\<lparr>user := u\<rparr>) = Some (Inr (), s\<lparr>user := u\<rparr>\<lparr>user := u'\<rparr>)"
    by blast
  then show ?case using sl call by (intro exI[of _ u']) simp
qed

text \<open>
  An event that is answered is delivered to the end: \<open>fireServiceEvent\<close> returns normally
  and has changed the user state only.
\<close>

lemma fireServiceEvent_answered:
  assumes "answered L ev s"
  shows "\<exists>u. fireServiceEvent L ev s = Some (Inr (), s\<lparr>user := u\<rparr>)"
proof -
  let ?c = "canonical_filter (r_serviceName (referenceAt s (getServiceReference ev)))"
  have fire: "fireServiceEvent L ev s = deliver L ev (map (listener_at s) (subscribed ?c s)) s"
    using answered_within[OF assms]
    by (intro fireServiceEvent_deliver[OF answered_keeps[OF assms]]) blast
  have "\<forall>x \<in> set (map (listener_at s) (subscribed ?c s)).
      \<exists>l. x = Some l \<and> (\<forall>s1. \<exists>u. L l ev s1 = Some (Inr (), s1\<lparr>user := u\<rparr>))"
    using assms unfolding answered_def listener_at_def by fastforce
  then show ?thesis unfolding fire
    by (rule deliver_answered[where L = L and ev = ev])
qed

text \<open>
  When the \<open>UNREGISTERING\<close> events of the references are answered, the unregistration
  returns normally; it changes the user state, and the owning-bundle link of the
  references it was given.
\<close>

lemma announce_answered:
  "\<forall>r \<in> set rs. answered L \<lparr>getType = UNREGISTERING, getServiceReference = r\<rparr> s \<Longrightarrow>
    \<exists>u. announce L rs s =
      Some (Inr (), s\<lparr>referenceAt := (\<lambda>r. if r \<in> set rs then (referenceAt s r)\<lparr>r_bundle := None\<rparr>
                                          else referenceAt s r),
                      user := u\<rparr>)"
proof (induction rs arbitrary: s)
  case Nil
  have "s = s\<lparr>referenceAt := referenceAt s, user := user s\<rparr>" by simp
  then show ?case by (intro exI[of _ "user s"]) simp
next
  case (Cons r rs)
  from Cons.prems have "answered L \<lparr>getType = UNREGISTERING, getServiceReference = r\<rparr> s" by simp
  from fireServiceEvent_answered[OF this]
  obtain u where fire: "fireServiceEvent L \<lparr>getType = UNREGISTERING, getServiceReference = r\<rparr> s
      = Some (Inr (), s\<lparr>user := u\<rparr>)" by blast
  let ?s' = "reference_upd r (\<lambda>R. R\<lparr>r_bundle := None\<rparr>) (s\<lparr>user := u\<rparr>)"
  have "\<forall>r' \<in> set rs. answered L \<lparr>getType = UNREGISTERING, getServiceReference = r'\<rparr> ?s'"
  proof
    fix r' assume "r' \<in> set rs"
    with Cons.prems have "answered L \<lparr>getType = UNREGISTERING, getServiceReference = r'\<rparr> s"
      by simp
    moreover have "answered L \<lparr>getType = UNREGISTERING, getServiceReference = r'\<rparr> ?s' =
        answered L \<lparr>getType = UNREGISTERING, getServiceReference = r'\<rparr> s"
      by (rule answered_frame) simp_all
    ultimately show "answered L \<lparr>getType = UNREGISTERING, getServiceReference = r'\<rparr> ?s'" by simp
  qed
  from Cons.IH[OF this] obtain u' where
    rest: "announce L rs ?s' =
      Some (Inr (), ?s'\<lparr>referenceAt := (\<lambda>x. if x \<in> set rs then (referenceAt ?s' x)\<lparr>r_bundle := None\<rparr>
                                            else referenceAt ?s' x),
                        user := u'\<rparr>)" by blast
  have "?s'\<lparr>referenceAt := (\<lambda>x. if x \<in> set rs then (referenceAt ?s' x)\<lparr>r_bundle := None\<rparr>
                                else referenceAt ?s' x), user := u'\<rparr>
      = s\<lparr>referenceAt := (\<lambda>x. if x \<in> set (r # rs) then (referenceAt s x)\<lparr>r_bundle := None\<rparr>
                                else referenceAt s x), user := u'\<rparr>"
    by (auto simp: reference_upd_def fun_eq_iff)
  with rest fire show ?case by (intro exI[of _ u']) simp
qed

text \<open>
  Then the loop of \<open>unregisterServices\<close> from index \<open>i\<close> on is the unregistration of the
  references from that index on.
\<close>

lemma unregisterServices_loop_announce:
  "\<forall>r \<in> set (drop i (b_serviceReferences (bundleAt s this))).
      answered L \<lparr>getType = UNREGISTERING, getServiceReference = r\<rparr> s \<Longrightarrow>
   unregisterServices_loop L this i s =
     announce L (drop i (b_serviceReferences (bundleAt s this))) s"
proof (induction "length (b_serviceReferences (bundleAt s this)) - i" arbitrary: i s)
  case 0
  then show ?case by (subst unregisterServices_loop.simps) simp
next
  case (Suc n)
  then have i: "i < length (b_serviceReferences (bundleAt s this))" by simp
  let ?r = "b_serviceReferences (bundleAt s this) ! i"
  have d: "drop i (b_serviceReferences (bundleAt s this)) =
      ?r # drop (i + 1) (b_serviceReferences (bundleAt s this))"
    using i by (simp add: Cons_nth_drop_Suc)
  from Suc.prems have "answered L \<lparr>getType = UNREGISTERING, getServiceReference = ?r\<rparr> s"
    unfolding d by simp
  from fireServiceEvent_answered[OF this]
  obtain u where fire: "fireServiceEvent L \<lparr>getType = UNREGISTERING, getServiceReference = ?r\<rparr> s
      = Some (Inr (), s\<lparr>user := u\<rparr>)" by blast
  let ?s' = "reference_upd ?r (\<lambda>R. R\<lparr>r_bundle := None\<rparr>) (s\<lparr>user := u\<rparr>)"
  have n: "n = length (b_serviceReferences (bundleAt ?s' this)) - (i + 1)"
    using Suc.hyps(2) by simp
  have rest: "\<forall>r \<in> set (drop (i + 1) (b_serviceReferences (bundleAt ?s' this))).
      answered L \<lparr>getType = UNREGISTERING, getServiceReference = r\<rparr> ?s'"
  proof
    fix r' assume "r' \<in> set (drop (i + 1) (b_serviceReferences (bundleAt ?s' this)))"
    with Suc.prems have "answered L \<lparr>getType = UNREGISTERING, getServiceReference = r'\<rparr> s"
      unfolding d by simp
    moreover have "answered L \<lparr>getType = UNREGISTERING, getServiceReference = r'\<rparr> ?s' =
        answered L \<lparr>getType = UNREGISTERING, getServiceReference = r'\<rparr> s"
      by (rule answered_frame) simp_all
    ultimately show "answered L \<lparr>getType = UNREGISTERING, getServiceReference = r'\<rparr> ?s'" by simp
  qed
  have "unregisterServices_loop L this i s = unregisterServices_loop L this (i + 1) ?s'"
    using i fire by (subst unregisterServices_loop.simps) (simp add: Let_def)
  also have "\<dots> = announce L (drop (i + 1) (b_serviceReferences (bundleAt ?s' this))) ?s'"
    using Suc.hyps(1)[OF n rest] .
  finally show ?case
    unfolding d using fire by simp
qed


text \<open>The rollback of \<open>start()\<close>, with the events announced on its way.\<close>

lemma failed_start:
  assumes resolved: "b_state (bundleAt s this) = RESOLVED"
    and raised: "call_start A this (bundle_upd this (\<lambda>B. B\<lparr>b_state := STARTING\<rparr>) s) =
                   Some (Inl error, s2)"
    and exc: "instanceOf (handle_class error) Exception"
    and answered: "\<forall>r \<in> set (b_serviceReferences (bundleAt s2 this)).
                     answered L \<lparr>getType = UNREGISTERING, getServiceReference = r\<rparr> s2"
  shows "\<exists>s4 s'.
      announce L (b_serviceReferences (bundleAt s2 this))
        (bundle_upd this (\<lambda>B. B\<lparr>b_state := STOPPING\<rparr>) s2) = Some (Inr (), s4)
      \<and> b_serviceReferences (bundleAt s4 this) = b_serviceReferences (bundleAt s2 this)
      \<and> BundleImpl_start A L this s = Some (Inl (newInstance Exception True), s')
      \<and> b_serviceReferences (bundleAt s' this) = []
      \<and> b_serviceListeners (bundleAt s' this) = []
      \<and> b_serviceListenerFilters (bundleAt s' this) = []
      \<and> b_state (bundleAt s' this) = RESOLVED
      \<and> b_context (bundleAt s' this) = None
      \<and> user s' = user s4
      \<and> (\<forall>r \<in> set (b_serviceReferences (bundleAt s2 this)). r_bundle (referenceAt s' r) = None)"
proof -
  let ?s3 = "bundle_upd this (\<lambda>B. B\<lparr>b_state := STOPPING\<rparr>) s2"
  let ?rs = "b_serviceReferences (bundleAt s2 this)"
  have answered3: "\<forall>r \<in> set ?rs. answered L \<lparr>getType = UNREGISTERING, getServiceReference = r\<rparr> ?s3"
  proof
    fix r assume "r \<in> set ?rs"
    with answered have "answered L \<lparr>getType = UNREGISTERING, getServiceReference = r\<rparr> s2" by simp
    moreover have "answered L \<lparr>getType = UNREGISTERING, getServiceReference = r\<rparr> ?s3 =
        answered L \<lparr>getType = UNREGISTERING, getServiceReference = r\<rparr> s2"
      by (rule answered_frame) simp_all
    ultimately show "answered L \<lparr>getType = UNREGISTERING, getServiceReference = r\<rparr> ?s3" by simp
  qed
  from announce_answered[OF this] obtain u where
    ann: "announce L ?rs ?s3 =
      Some (Inr (), ?s3\<lparr>referenceAt := (\<lambda>r. if r \<in> set ?rs then (referenceAt ?s3 r)\<lparr>r_bundle := None\<rparr>
                                           else referenceAt ?s3 r),
                       user := u\<rparr>)" by blast
  let ?s4 = "?s3\<lparr>referenceAt := (\<lambda>r. if r \<in> set ?rs then (referenceAt ?s3 r)\<lparr>r_bundle := None\<rparr>
                                     else referenceAt ?s3 r),
                 user := u\<rparr>"
  have "unregisterServices_loop L this 0 ?s3 =
      announce L (drop 0 (b_serviceReferences (bundleAt ?s3 this))) ?s3"
    by (rule unregisterServices_loop_announce) (use answered3 in simp)
  then have loop: "unregisterServices_loop L this 0 ?s3 = Some (Inr (), ?s4)"
    using ann by simp
  let ?s' = "bundle_upd this (\<lambda>B. B\<lparr>b_context := None\<rparr>)
      (bundle_upd this (\<lambda>B. B\<lparr>b_state := RESOLVED\<rparr>)
         (unregisterListeners this
            (bundle_upd this (\<lambda>B. B\<lparr>b_serviceReferences := []\<rparr>) ?s4)))"
  have start: "BundleImpl_start A L this s = Some (Inl (newInstance Exception True), ?s')"
    using resolved raised exc loop
    by (simp add: BundleImpl_start_def unregisterServices_def Let_def)
  show ?thesis
    using ann start by (intro exI[of _ ?s4] exI[of _ ?s']) simp
qed


lemma recording_returns:
  "\<exists>u. recording l ev s = Some (Inr (), s\<lparr>user := u\<rparr>)"
  unfolding recording_def by blast

lemma fire_from_context:
  "fireServiceEvent recording \<lparr>getType = t, getServiceReference = 2\<rparr>
     (empty_registry
       \<lparr>bundles := [0],
        bundleAt := (bundleAt empty_registry)
          (0 := \<lparr>b_symbolicName = ''A'', b_activator = a, b_state = st,
                 b_serviceReferences = [2], b_serviceListeners = [Some 9],
                 b_serviceListenerFilters = [Some ''(objectClass=X)''],
                 b_context = Some 1\<rparr>),
        referenceAt := (referenceAt empty_registry)
          (2 := \<lparr>r_bundle = Some 0, r_serviceName = ''X'', r_service = Some 42\<rparr>),
        allocated := 3,
        user := u\<rparr>) =
   Some (Inr (), empty_registry
       \<lparr>bundles := [0],
        bundleAt := (bundleAt empty_registry)
          (0 := \<lparr>b_symbolicName = ''A'', b_activator = a, b_state = st,
                 b_serviceReferences = [2], b_serviceListeners = [Some 9],
                 b_serviceListenerFilters = [Some ''(objectClass=X)''],
                 b_context = Some 1\<rparr>),
        referenceAt := (referenceAt empty_registry)
          (2 := \<lparr>r_bundle = Some 0, r_serviceName = ''X'', r_service = Some 42\<rparr>),
        allocated := 3,
        user := u @ [(9, t, 2)]\<rparr>)"
  by (simp add: fireServiceEvent_def empty_registry_def canonical_filter_def
        OBJECTCLASS_def fire_bundles.simps fire_listeners.simps FastTable_get_def recording_def)

lemma subscribe_and_register_resolved_A:
  "subscribe_and_register (Some 1) (bundle_upd 0 (\<lambda>B. B\<lparr>b_state := STARTING\<rparr>) (resolved_A a)) =
     Some (Inr (), raised_A a)"
proof -
  have ctx: "c_bundle (contextAt (bundle_upd 0 (\<lambda>B. B\<lparr>b_state := STARTING\<rparr>) (resolved_A a)) 1) = 0"
    by (simp add: resolved_A_def empty_registry_def)
  show ?thesis
    unfolding subscribe_and_register_def addServiceListener_def registerService_def Let_def
    apply (simp add: resolved_A_def bundle_upd_def new_BundleImpl_def)
    apply (simp add: empty_registry_def)
    apply (simp add: fire_from_context[unfolded empty_registry_def, simplified] raised_A_def empty_registry_def REGISTERED_def)
    done
qed

lemma call_start_resolved_A:
  "a = 1 \<or> a = 2 \<Longrightarrow>
   call_start scenario 0 (bundle_upd 0 (\<lambda>B. B\<lparr>b_state := STARTING\<rparr>) (resolved_A a)) =
     Some (Inl (if a = 1 then newInstance RuntimeException True else newInstance Error False),
           raised_A a)"
proof -
  assume a: "a = 1 \<or> a = 2"
  have act: "b_activator (bundleAt (bundle_upd 0 (\<lambda>B. B\<lparr>b_state := STARTING\<rparr>) (resolved_A a)) 0) = Some a"
    and ctx: "b_context (bundleAt (bundle_upd 0 (\<lambda>B. B\<lparr>b_state := STARTING\<rparr>) (resolved_A a)) 0) = Some 1"
    by (simp_all add: resolved_A_def new_BundleImpl_def)
  show ?thesis
    unfolding call_start_def act ctx using a
    by (auto simp: scenario_def subscribe_and_register_resolved_A simp del: One_nat_def)
qed


lemma start_Error:
  "BundleImpl_start scenario recording 0 (resolved_A 2) =
     Some (Inl (newInstance Error False), raised_A 2)"
proof -
  have resolved: "b_state (bundleAt (resolved_A 2) 0) = RESOLVED"
    by (simp add: resolved_A_def new_BundleImpl_def)
  have raised: "call_start scenario 0 (bundle_upd 0 (\<lambda>B. B\<lparr>b_state := STARTING\<rparr>) (resolved_A 2)) =
      Some (Inl (newInstance Error False), raised_A 2)"
    using call_start_resolved_A[of 2] by simp
  have exc: "\<not> instanceOf Error Exception"
    by (simp add: instanceOf.simps)
  show ?thesis
    using resolved raised exc by (simp add: BundleImpl_start_def Let_def)
qed

lemma answered_raised_A:
  "answered recording \<lparr>getType = UNREGISTERING, getServiceReference = 2\<rparr> (raised_A a)"
proof -
  have sub: "subscribed (canonical_filter ''X'') (raised_A a) = [(0, 0)]"
    by (simp add: subscribed_def subscribed_in_def canonical_filter_def OBJECTCLASS_def
          raised_A_def empty_registry_def)
  have name: "r_serviceName (referenceAt (raised_A a) 2) = ''X''"
    by (simp add: raised_A_def)
  have l: "b_serviceListeners (bundleAt (raised_A a) 0) = [Some 9]"
    by (simp add: raised_A_def)
  show ?thesis
    unfolding answered_def using recording_returns by (simp add: name sub l)
qed

lemma start_RuntimeException:
  "\<exists>s'. BundleImpl_start scenario recording 0 (resolved_A 1) =
         Some (Inl (newInstance Exception True), s')"
proof -
  have resolved: "b_state (bundleAt (resolved_A 1) 0) = RESOLVED"
    by (simp add: resolved_A_def new_BundleImpl_def)
  have raised: "call_start scenario 0 (bundle_upd 0 (\<lambda>B. B\<lparr>b_state := STARTING\<rparr>) (resolved_A 1)) =
      Some (Inl (newInstance RuntimeException True), raised_A 1)"
    using call_start_resolved_A[of 1] by simp
  have exc: "instanceOf (handle_class (newInstance RuntimeException True)) Exception"
    by (simp add: instanceOf.simps)
  have refs: "b_serviceReferences (bundleAt (raised_A 1) 0) = [2]"
    by (simp add: raised_A_def)
  have answered: "\<forall>r \<in> set (b_serviceReferences (bundleAt (raised_A 1) 0)).
      answered recording \<lparr>getType = UNREGISTERING, getServiceReference = r\<rparr> (raised_A 1)"
    unfolding refs using answered_raised_A[of 1] by simp
  from failed_start[OF resolved raised exc answered] show ?thesis by blast
qed




text \<open>
  The provision on the listeners in C1 is needed as well: when a listener throws while the
  \<open>UNREGISTERING\<close> events of the rollback are delivered, its exception leaves \<open>start()\<close>
  and ends the rollback; the bundle stays in state \<open>STOPPING\<close> with its service
  reference, its listener and filter and its context.
\<close>

lemma start_rollback_interrupted:
  "BundleImpl_start scenario refusing 0 (resolved_A 1) =
     Some (Inl (newInstance RuntimeException True), bundle_upd 0 (\<lambda>B. B\<lparr>b_state := STOPPING\<rparr>) (raised_A 1))
   \<and> b_state (bundleAt (bundle_upd 0 (\<lambda>B. B\<lparr>b_state := STOPPING\<rparr>) (raised_A 1)) 0) = STOPPING
   \<and> b_serviceReferences (bundleAt (bundle_upd 0 (\<lambda>B. B\<lparr>b_state := STOPPING\<rparr>) (raised_A 1)) 0) = [2]
   \<and> b_context (bundleAt (bundle_upd 0 (\<lambda>B. B\<lparr>b_state := STOPPING\<rparr>) (raised_A 1)) 0) = Some 1"
proof -
  let ?s3 = "bundle_upd 0 (\<lambda>B. B\<lparr>b_state := STOPPING\<rparr>) (raised_A 1)"
  have resolved: "b_state (bundleAt (resolved_A 1) 0) = RESOLVED"
    by (simp add: resolved_A_def new_BundleImpl_def)
  have raised: "call_start scenario 0 (bundle_upd 0 (\<lambda>B. B\<lparr>b_state := STARTING\<rparr>) (resolved_A 1)) =
      Some (Inl (newInstance RuntimeException True), raised_A 1)"
    using call_start_resolved_A[of 1] by simp
  have exc: "instanceOf (handle_class (newInstance RuntimeException True)) Exception"
    by (simp add: instanceOf.simps)
  have fire: "fireServiceEvent refusing \<lparr>getType = UNREGISTERING, getServiceReference = 2\<rparr> ?s3 =
      Some (Inl (newInstance RuntimeException True), ?s3)"
    by (simp add: fireServiceEvent_def raised_A_def empty_registry_def canonical_filter_def
          OBJECTCLASS_def fire_bundles.simps fire_listeners.simps FastTable_get_def refusing_def)
  have refs: "b_serviceReferences (bundleAt (raised_A 1) 0) = [2]"
    by (simp add: raised_A_def)
  have "unregisterServices_loop refusing 0 0 ?s3 = Some (Inl (newInstance RuntimeException True), ?s3)"
    by (subst unregisterServices_loop.simps) (simp add: refs fire Let_def del: One_nat_def)
  then have "unregisterServices refusing 0 ?s3 = Some (Inl (newInstance RuntimeException True), ?s3)"
    by (simp add: unregisterServices_def)
  then have "BundleImpl_start scenario refusing 0 (resolved_A 1) = Some (Inl (newInstance RuntimeException True), ?s3)"
    using resolved raised exc by (simp add: BundleImpl_start_def Let_def)
  then show ?thesis by (simp add: raised_A_def)
qed

section \<open>The registry's boundary\<close>

text \<open>
  What the framework's code throws: an object that the user code has thrown (by the handle
  it was thrown with, or by one of class \<open>Exception\<close>), or one of its own exceptions,
  which have a message. \<open>Q\<close> is any property that those have.
\<close>

lemma FastTable_get_nat:
  "FastTable_get xs (int j) = Inl e \<Longrightarrow> e = IndexOutOfBoundsException"
  by (simp add: FastTable_get_def split: if_splits)

lemma fire_listeners_throws:
  assumes Q: "framework_throws Q" and run: "fire_listeners L ev c b j s = Some y"
  shows "(\<forall>l e. throws_only Q (L l e)) \<longrightarrow> (\<forall>e. fst y = Inl e \<longrightarrow> Q e)"
proof (rule fire_listeners.raw_induct
    [where P = "\<lambda>L ev c b j s y.
       (\<forall>l e. throws_only Q (L l e)) \<longrightarrow> (\<forall>e. fst y = Inl e \<longrightarrow> Q e)",
     OF _ run], goal_cases)
  case (1 fire L ev c b j s y)
  from Q have own: "Q (newInstance NullPointerException True)"
    "Q (newInstance IndexOutOfBoundsException True)"
    unfolding framework_throws_def by simp_all
  show ?case
  proof (intro impI allI)
    fix e
    assume L: "\<forall>l e. throws_only Q (L l e)" and y: "fst y = Inl e"
    show "Q e"
    proof (cases "j < length (b_serviceListenerFilters (bundleAt s b))")
      case False
      with 1(2) y show ?thesis by auto
    next
      case j: True
      show ?thesis
      proof (cases "Some c = b_serviceListenerFilters (bundleAt s b) ! j")
        case False
        with 1(2) j have "fire L ev c b (j + 1) s = Some y" by simp
        from 1(1)[OF this] L y show ?thesis by simp
      next
        case True
        show ?thesis
        proof (cases "FastTable_get (b_serviceListeners (bundleAt s b)) (int j)")
          case (Inl x)
          with 1(2) j True y FastTable_get_nat[OF Inl] own show ?thesis by auto
        next
          case (Inr sl)
          show ?thesis
          proof (cases sl)
            case None
            with 1(2) j True Inr y own show ?thesis by auto
          next
            case (Some l)
            with 1(2) j True Inr obtain r s1 where call: "L l ev s = Some (r, s1)"
              by (cases "L l ev s") auto
            show ?thesis
            proof (cases r)
              case (Inl x)
              with L call have "Q x" unfolding throws_only_def by blast
              with 1(2) j True \<open>FastTable_get (b_serviceListeners (bundleAt s b)) (int j) = Inr sl\<close>
                Some call Inl y show ?thesis by auto
            next
              case (Inr u)
              with 1(2) j True \<open>FastTable_get (b_serviceListeners (bundleAt s b)) (int j) = Inr sl\<close>
                Some call have "fire L ev c b (j + 1) s1 = Some y" by simp
              from 1(1)[OF this] L y show ?thesis by simp
            qed
          qed
        qed
      qed
    qed
  qed
qed

lemma fire_bundles_throws:
  assumes Q: "framework_throws Q" and run: "fire_bundles L ev c i s = Some y"
  shows "(\<forall>l e. throws_only Q (L l e)) \<longrightarrow> (\<forall>e. fst y = Inl e \<longrightarrow> Q e)"
proof (rule fire_bundles.raw_induct
    [where P = "\<lambda>L ev c i s y.
       (\<forall>l e. throws_only Q (L l e)) \<longrightarrow> (\<forall>e. fst y = Inl e \<longrightarrow> Q e)",
     OF _ run], goal_cases)
  case (1 fire L ev c i s y)
  show ?case
  proof (intro impI allI)
    fix e
    assume L: "\<forall>l e. throws_only Q (L l e)" and y: "fst y = Inl e"
    show "Q e"
    proof (cases "i < length (bundles s)")
      case False
      with 1(2) y show ?thesis by auto
    next
      case i: True
      with 1(2) obtain r s1 where inner: "fire_listeners L ev c (bundles s ! i) 0 s = Some (r, s1)"
        by (cases "fire_listeners L ev c (bundles s ! i) 0 s") auto
      show ?thesis
      proof (cases r)
        case (Inl x)
        with fire_listeners_throws[OF Q inner] L have "Q x" by simp
        with 1(2) i inner Inl y show ?thesis by auto
      next
        case (Inr u)
        with 1(2) i inner have "fire L ev c (i + 1) s1 = Some y" by simp
        from 1(1)[OF this] L y show ?thesis by simp
      qed
    qed
  qed
qed

lemma fireServiceEvent_throws:
  assumes Q: "framework_throws Q"
    and "\<forall>l e. throws_only Q (L l e)" and "fireServiceEvent L ev s = Some (Inl e, s')"
  shows "Q e"
  using fire_bundles_throws[OF Q, of L ev _ 0 s "(Inl e, s')"] assms(2,3)
  by (simp add: fireServiceEvent_def Let_def)

lemma unregisterServices_loop_throws:
  assumes Q: "framework_throws Q" and run: "unregisterServices_loop L this i s = Some y"
  shows "(\<forall>l e. throws_only Q (L l e)) \<longrightarrow> (\<forall>e. fst y = Inl e \<longrightarrow> Q e)"
proof (rule unregisterServices_loop.raw_induct
    [where P = "\<lambda>L this i s y.
       (\<forall>l e. throws_only Q (L l e)) \<longrightarrow> (\<forall>e. fst y = Inl e \<longrightarrow> Q e)",
     OF _ run], goal_cases)
  case (1 loop L this i s y)
  show ?case
  proof (intro impI allI)
    fix e
    assume L: "\<forall>l e. throws_only Q (L l e)" and y: "fst y = Inl e"
    show "Q e"
    proof (cases "i < length (b_serviceReferences (bundleAt s this))")
      case False
      with 1(2) y show ?thesis by auto
    next
      case i: True
      let ?r = "b_serviceReferences (bundleAt s this) ! i"
      let ?ev = "\<lparr>getType = UNREGISTERING, getServiceReference = ?r\<rparr>"
      from 1(2) i obtain r s1 where fire: "fireServiceEvent L ?ev s = Some (r, s1)"
        by (cases "fireServiceEvent L ?ev s") (auto simp: Let_def)
      show ?thesis
      proof (cases r)
        case (Inl x)
        with fireServiceEvent_throws[OF Q L] fire have "Q x" by blast
        with 1(2) i fire Inl y show ?thesis by (auto simp: Let_def)
      next
        case (Inr u)
        let ?s2 = "reference_upd ?r (\<lambda>R. R\<lparr>r_bundle := None\<rparr>) s1"
        from 1(2) i fire Inr have "loop L this (i + 1) ?s2 = Some y" by (simp add: Let_def)
        from 1(1)[OF this] L y show ?thesis by simp
      qed
    qed
  qed
qed

lemma unregisterServices_throws:
  assumes Q: "framework_throws Q"
    and L: "\<forall>l e. throws_only Q (L l e)" and un: "unregisterServices L this s = Some (Inl e, s')"
  shows "Q e"
proof -
  from un obtain r1 s1 where loop: "unregisterServices_loop L this 0 s = Some (r1, s1)"
    by (cases "unregisterServices_loop L this 0 s") (auto simp: unregisterServices_def)
  with un have "r1 = Inl e" by (cases r1) (simp_all add: unregisterServices_def)
  with unregisterServices_loop_throws[OF Q loop] L show ?thesis by simp
qed

lemma call_start_throws:
  assumes "framework_throws Q"
    and "\<forall>a c. throws_only Q (activator_start A a c)"
    and "call_start A this s = Some (Inl e, s')"
  shows "Q e"
proof (cases "b_activator (bundleAt s this)")
  case None
  from assms(1) have "Q (newInstance NullPointerException True)"
    unfolding framework_throws_def by simp
  with None assms(3) show ?thesis by (auto simp: call_start_def)
next
  case (Some a)
  with assms(2,3) show ?thesis unfolding call_start_def throws_only_def by (auto, blast)
qed

lemma call_stop_throws:
  assumes "framework_throws Q"
    and "\<forall>a c. throws_only Q (activator_stop A a c)"
    and "call_stop A this s = Some (Inl e, s')"
  shows "Q e"
proof (cases "b_activator (bundleAt s this)")
  case None
  from assms(1) have "Q (newInstance NullPointerException True)"
    unfolding framework_throws_def by simp
  with None assms(3) show ?thesis by (auto simp: call_stop_def)
next
  case (Some a)
  with assms(2,3) show ?thesis unfolding call_stop_def throws_only_def by (auto, blast)
qed

lemma BundleImpl_start_throws:
  assumes Q: "framework_throws Q"
    and L: "\<forall>l e. throws_only Q (L l e)"
    and A: "\<forall>a c. throws_only Q (activator_start A a c)"
    and start: "BundleImpl_start A L this s = Some (Inl e, s')"
  shows "Q e"
proof (cases "b_state (bundleAt s this) \<noteq> RESOLVED")
  case True
  from Q have "Q (newInstance Exception True)"
    unfolding framework_throws_def by simp
  with True start show ?thesis by (auto simp: BundleImpl_start_def)
next
  case False
  let ?s1 = "bundle_upd this (\<lambda>B. B\<lparr>b_state := STARTING\<rparr>) s"
  from start False obtain r2 s2 where call: "call_start A this ?s1 = Some (r2, s2)"
    by (cases "call_start A this ?s1") (auto simp: BundleImpl_start_def Let_def)
  show ?thesis
  proof (cases r2)
    case (Inr u)
    with start False call show ?thesis by (simp add: BundleImpl_start_def Let_def)
  next
    case (Inl error)
    with call_start_throws[OF Q A] call have p: "Q error" by blast
    show ?thesis
    proof (cases "instanceOf (handle_class error) Exception")
      case no: False
      with start False call Inl p show ?thesis
        by (simp add: BundleImpl_start_def Let_def)
    next
      case yes: True
      let ?s3 = "bundle_upd this (\<lambda>B. B\<lparr>b_state := STOPPING\<rparr>) s2"
      from start False call Inl yes
      obtain r4 s4 where un: "unregisterServices L this ?s3 = Some (r4, s4)"
        by (cases "unregisterServices L this ?s3") (auto simp: BundleImpl_start_def Let_def)
      show ?thesis
      proof (cases r4)
        case thrown: (Inl x)
        with unregisterServices_throws[OF Q L] un have "Q x" by blast
        with start False call Inl yes un thrown show ?thesis
          by (simp add: BundleImpl_start_def Let_def)
      next
        case (Inr u)
        from Q have "Q (newInstance Exception True)"
          unfolding framework_throws_def by simp
        with start False call Inl yes un Inr show ?thesis
          by (auto simp: BundleImpl_start_def Let_def)
      qed
    qed
  qed
qed

lemma BundleImpl_stop_throws:
  assumes Q: "framework_throws Q"
    and L: "\<forall>l e. throws_only Q (L l e)"
    and A: "\<forall>a c. throws_only Q (activator_stop A a c)"
    and stop: "BundleImpl_stop A L this s = Some (Inl e, s')"
  shows "Q e"
proof (cases "b_state (bundleAt s this) \<noteq> ACTIVE")
  case True
  with stop show ?thesis by (simp add: BundleImpl_stop_def)
next
  case False
  let ?s1 = "bundle_upd this (\<lambda>B. B\<lparr>b_state := STOPPING\<rparr>) s"
  from stop False obtain r2 s2 where call: "call_stop A this ?s1 = Some (r2, s2)"
    by (cases "call_stop A this ?s1") (auto simp: BundleImpl_stop_def Let_def)
  have p: "Q x" if "r2 = Inl x" for x
    using call_stop_throws[OF Q A] call that by blast
  show ?thesis
  proof (cases "\<exists>x. r2 = Inl x \<and> \<not> instanceOf (handle_class x) Exception")
    case True
    with stop False call p show ?thesis
      by (auto simp: BundleImpl_stop_def Let_def)
  next
    case caught: False
    from stop False call caught
    obtain r3 s3 where un: "unregisterServices L this s2 = Some (r3, s3)"
      by (cases "unregisterServices L this s2"; cases r2)
         (auto simp: BundleImpl_stop_def Let_def split: if_splits)
    show ?thesis
    proof (cases r3)
      case thrown: (Inl x)
      with unregisterServices_throws[OF Q L] un have "Q x" by blast
      with stop False call caught un thrown show ?thesis
        by (cases r2) (auto simp: BundleImpl_stop_def Let_def split: if_splits)
    next
      case (Inr u)
      from Q have "Q (x\<lparr>handle_class := Exception\<rparr>)" if "r2 = Inl x" for x
        using p[OF that] unfolding framework_throws_def by blast
      with stop False call caught un Inr show ?thesis
        by (cases r2) (auto simp: BundleImpl_stop_def Let_def split: if_splits)
    qed
  qed
qed

lemma OSGiImpl_start_body_throws:
  assumes Q: "framework_throws Q"
    and L: "\<forall>l e. throws_only Q (L l e)"
    and A: "\<forall>a c. throws_only Q (activator_start A a c)"
    and body: "OSGiImpl_start_body A L n a s = Some (Inl e, s')"
  shows "Q e"
  using body BundleImpl_start_throws[OF Q L A]
  by (cases "getBundle n s") (auto simp: OSGiImpl_start_body_def Let_def)

lemma OSGiImpl_stop_body_throws:
  assumes Q: "framework_throws Q"
    and L: "\<forall>l e. throws_only Q (L l e)"
    and A: "\<forall>a c. throws_only Q (activator_stop A a c)"
    and body: "OSGiImpl_stop_body A L n s = Some (Inl e, s')"
  shows "Q e"
proof (cases "getBundle n s")
  case None
  from Q have "Q (newInstance Exception True)" unfolding framework_throws_def by simp
  with None body show ?thesis by (auto simp: OSGiImpl_stop_body_def)
next
  case (Some b)
  with body obtain r where "BundleImpl_stop A L b s = Some (r, s')" "r = Inl e"
    by (cases "BundleImpl_stop A L b s")
       (auto simp: OSGiImpl_stop_body_def split: sum.splits)
  with BundleImpl_stop_throws[OF Q L A] show ?thesis by blast
qed

lemma OSGiImpl_start_body_returns:
  assumes "returning A" and "only_user L"
  shows "\<exists>r s'. OSGiImpl_start_body A L symbolicName activator s = Some (r, s')"
  unfolding OSGiImpl_start_body_def Let_def
  using BundleImpl_start_returns[OF assms]
  by (simp split: prod.splits)

lemma OSGiImpl_stop_body_returns:
  assumes "returning A" and "only_user L"
  shows "\<exists>r s'. OSGiImpl_stop_body A L symbolicName s = Some (r, s')"
proof (cases "getBundle symbolicName s")
  case None
  then show ?thesis by (simp add: OSGiImpl_stop_body_def)
next
  case (Some b)
  from BundleImpl_stop_returns[OF assms, of b s]
  obtain r s' where "BundleImpl_stop A L b s = Some (r, s')" by blast
  then show ?thesis using Some by (cases r) (simp_all add: OSGiImpl_stop_body_def)
qed

text \<open>
  The boundary holds for what can be printed: when the user code throws printable
  objects only, \<open>Registry.start\<close> and \<open>Registry.stop\<close> are not left by a thrown object
  and have defined behaviour, and they return when the user code does.
\<close>

lemma framework_throws_printable: "framework_throws printable"
  by (simp add: framework_throws_def) (simp add: printable_def)

lemma catch_Throwable_log_printable:
  assumes "\<And>e s'. body s = Some (Inl e, s') \<Longrightarrow> printable e"
  shows "catch_Throwable_log body s \<noteq> Some (Printed (Inl e, s'))"
    and "catch_Throwable_log body s \<noteq> Some MalformedHandle"
    and "body s = Some (r, s1) \<Longrightarrow> \<exists>s'. catch_Throwable_log body s = Some (Printed (Inr (), s'))"
  using assms unfolding catch_Throwable_log_cases
  by (auto simp: Logging_error_printable split: option.splits prod.splits sum.splits)

lemma registry_boundary_printable:
  assumes L: "\<forall>l e. throws_only printable (L l e)"
    and A: "\<forall>a c. throws_only printable (activator_start A a c) \<and> throws_only printable (activator_stop A a c)"
  shows "OSGiImpl_start A L n a s \<noteq> Some (Printed (Inl e, s'))"
    and "OSGiImpl_start A L n a s \<noteq> Some MalformedHandle"
    and "OSGiImpl_stop A L n s \<noteq> Some (Printed (Inl e, s'))"
    and "OSGiImpl_stop A L n s \<noteq> Some MalformedHandle"
    and "returning A \<Longrightarrow> only_user L \<Longrightarrow>
         (\<exists>s'. OSGiImpl_start A L n a s = Some (Printed (Inr (), s')))
         \<and> (\<exists>s'. OSGiImpl_stop A L n s = Some (Printed (Inr (), s')))"
proof -
  have start: "printable e" if "OSGiImpl_start_body A L n a s = Some (Inl e, s')" for e s'
    using OSGiImpl_start_body_throws[OF framework_throws_printable L _ that] A by simp
  have stop: "printable e" if "OSGiImpl_stop_body A L n s = Some (Inl e, s')" for e s'
    using OSGiImpl_stop_body_throws[OF framework_throws_printable L _ that] A by simp
  show "OSGiImpl_start A L n a s \<noteq> Some (Printed (Inl e, s'))"
    and "OSGiImpl_start A L n a s \<noteq> Some MalformedHandle"
    unfolding OSGiImpl_start_def
    using catch_Throwable_log_printable(1,2)[of "OSGiImpl_start_body A L n a" s] start by blast+
  show "OSGiImpl_stop A L n s \<noteq> Some (Printed (Inl e, s'))"
    and "OSGiImpl_stop A L n s \<noteq> Some MalformedHandle"
    unfolding OSGiImpl_stop_def
    using catch_Throwable_log_printable(1,2)[of "OSGiImpl_stop_body A L n" s] stop by blast+
  assume R: "returning A" "only_user L"
  from OSGiImpl_start_body_returns[OF R, of n a s]
    catch_Throwable_log_printable(3)[of "OSGiImpl_start_body A L n a" s] start
  have "\<exists>s'. OSGiImpl_start A L n a s = Some (Printed (Inr (), s'))"
    unfolding OSGiImpl_start_def by blast
  moreover from OSGiImpl_stop_body_returns[OF R, of n s]
    catch_Throwable_log_printable(3)[of "OSGiImpl_stop_body A L n" s] stop
  have "\<exists>s'. OSGiImpl_stop A L n s = Some (Printed (Inr (), s'))"
    unfolding OSGiImpl_stop_def by blast
  ultimately show "(\<exists>s'. OSGiImpl_start A L n a s = Some (Printed (Inr (), s')))
         \<and> (\<exists>s'. OSGiImpl_stop A L n s = Some (Printed (Inr (), s')))" by simp
qed

lemma fun_upd_const: "(\<lambda>a. k)(x := k) = (\<lambda>a. k)"
  by (simp add: fun_eq_iff)

lemma start_body_empty_registry:
  "OSGiImpl_start_body A L ''A'' (Some a) empty_registry = BundleImpl_start A L 0 (resolved_A a)"
proof -
  have none: "getBundle ''A'' empty_registry = None"
    by (simp add: getBundle_def empty_registry_def)
  show ?thesis
    unfolding OSGiImpl_start_body_def none Let_def
    by (simp add: resolved_A_def empty_registry_def bundle_upd_def fun_upd_const numeral_2_eq_2)
qed

lemma stop_B:
  "BundleImpl_stop scenario recording 5 two_bundles =
     Some (Inl \<lparr>handle_class = Exception, object_class = RuntimeException, has_message = False\<rparr>,
           stopped_B)"
proof -
  let ?s1 = "bundle_upd 5 (\<lambda>B. B\<lparr>b_state := STOPPING\<rparr>) two_bundles"
  have active: "b_state (bundleAt two_bundles 5) = ACTIVE"
    by (simp add: two_bundles_def)
  have call: "call_stop scenario 5 ?s1 = Some (Inl (newInstance RuntimeException False), ?s1)"
    by (simp add: call_stop_def two_bundles_def scenario_def)
  have exc: "instanceOf RuntimeException Exception"
    by (simp add: instanceOf.simps)
  have refs: "b_serviceReferences (bundleAt two_bundles 5) = []"
    by (simp add: two_bundles_def)
  have un: "unregisterServices recording 5 ?s1 =
      Some (Inr (), bundle_upd 5 (\<lambda>B. B\<lparr>b_serviceReferences := []\<rparr>) ?s1)"
    unfolding unregisterServices_def
    by (subst unregisterServices_loop.simps) (simp add: refs)
  have "BundleImpl_stop scenario recording 5 two_bundles =
     Some (Inl ((newInstance RuntimeException False)\<lparr>handle_class := Exception\<rparr>),
       bundle_upd 5 (\<lambda>B. B\<lparr>b_state := RESOLVED\<rparr>)
         (unregisterListeners 5 (bundle_upd 5 (\<lambda>B. B\<lparr>b_serviceReferences := []\<rparr>) ?s1)))"
    by (simp add: BundleImpl_stop_def active call exc un Let_def)
  moreover have "bundle_upd 5 (\<lambda>B. B\<lparr>b_state := RESOLVED\<rparr>)
         (unregisterListeners 5 (bundle_upd 5 (\<lambda>B. B\<lparr>b_serviceReferences := []\<rparr>) ?s1)) = stopped_B"
    by (simp add: stopped_B_def two_bundles_def bundle_upd_def unregisterListeners_def
          empty_registry_def fun_eq_iff)
  ultimately show ?thesis by (simp add: newInstance_def)
qed

text \<open>
  C6. \<open>Registry.start\<close> and \<open>Registry.stop\<close> catch every thrown object and give it to
  \<open>Logging_API::error\<close>, so that nothing is thrown to their caller. That call fails on
  an object without a message, and its \<open>NullPointerException\<close> leaves the handler: with
  error logging enabled (as it is initially), \<open>Registry.start\<close> of a new bundle whose
  start hook throws \<open>Error_API::newInstance()\<close> throws a \<open>NullPointerException\<close> to its
  caller, and so does \<open>Registry.stop\<close> of an active bundle whose stop hook throws
  \<open>RuntimeException_API::newInstance()\<close>. Nothing is logged in either call.
\<close>

theorem registry_boundary_propagates:
  "OSGiImpl_start scenario recording ''A'' (Some 2) empty_registry =
     Some (Printed (Inl (newInstance NullPointerException True), raised_A 2))
   \<and> OSGiImpl_stop scenario recording ''B'' two_bundles =
     Some (Printed (Inl (newInstance NullPointerException True), stopped_B))
   \<and> isErrorEnabled empty_registry \<and> isErrorEnabled two_bundles
   \<and> logged (raised_A 2) = [] \<and> logged stopped_B = []"
proof -
  have start: "OSGiImpl_start scenario recording ''A'' (Some 2) empty_registry =
      Some (Printed (Inl (newInstance NullPointerException True), raised_A 2))"
    unfolding OSGiImpl_start_def catch_Throwable_log_cases start_body_empty_registry start_Error
    by (simp add: Logging_error_def raised_A_def empty_registry_def)
  have found: "getBundle ''B'' two_bundles = Some 5"
    by (simp add: getBundle_def two_bundles_def empty_registry_def)
  have body: "OSGiImpl_stop_body scenario recording ''B'' two_bundles =
      Some (Inl \<lparr>handle_class = Exception, object_class = RuntimeException, has_message = False\<rparr>,
            stopped_B)"
    by (simp add: OSGiImpl_stop_body_def found stop_B)
  have "OSGiImpl_stop scenario recording ''B'' two_bundles =
      Some (Printed (Inl (newInstance NullPointerException True), stopped_B))"
    unfolding OSGiImpl_stop_def catch_Throwable_log_cases body
    by (simp add: Logging_error_def malformed_def stopped_B_def two_bundles_def
          empty_registry_def)
  with start show ?thesis
    by (simp add: two_bundles_def stopped_B_def raised_A_def empty_registry_def)
qed


text \<open>
  A stop hook that lets an \<open>ArrayIndexOutOfBoundsException\<close> escape (here from the removal
  of a listener that was not subscribed): \<open>stop()\<close> throws it again after the cleanup, and
  the handler of \<open>Registry.stop\<close> prints it through its malformed handle.
\<close>

lemma registry_boundary_malformed:
  "OSGiImpl_stop scenario recording ''B''
     (bundle_upd 5 (\<lambda>B. B\<lparr>b_activator := Some 6\<rparr>) two_bundles) = Some MalformedHandle"
proof -
  let ?s = "bundle_upd 5 (\<lambda>B. B\<lparr>b_activator := Some 6\<rparr>) two_bundles"
  let ?s1 = "bundle_upd 5 (\<lambda>B. B\<lparr>b_state := STOPPING\<rparr>) ?s"
  have found: "getBundle ''B'' ?s = Some 5"
    by (simp add: getBundle_def two_bundles_def empty_registry_def)
  have active: "b_state (bundleAt ?s 5) = ACTIVE"
    by (simp add: two_bundles_def)
  have call: "call_stop scenario 5 ?s1 =
      Some (Inl (newInstance ArrayIndexOutOfBoundsException True), ?s1)"
    by (simp add: call_stop_def two_bundles_def scenario_def removeServiceListener_def
          FastTable_indexOf_def FastTable_remove_def FastTable_get_def Let_def)
  have exc: "instanceOf ArrayIndexOutOfBoundsException Exception"
    by (simp add: instanceOf.simps)
  have refs: "b_serviceReferences (bundleAt two_bundles 5) = []"
    by (simp add: two_bundles_def)
  have un: "unregisterServices recording 5 ?s1 =
      Some (Inr (), bundle_upd 5 (\<lambda>B. B\<lparr>b_serviceReferences := []\<rparr>) ?s1)"
    unfolding unregisterServices_def
    by (subst unregisterServices_loop.simps) (simp add: refs)
  have stop: "BundleImpl_stop scenario recording 5 ?s =
     Some (Inl ((newInstance ArrayIndexOutOfBoundsException True)\<lparr>handle_class := Exception\<rparr>),
       bundle_upd 5 (\<lambda>B. B\<lparr>b_state := RESOLVED\<rparr>)
         (unregisterListeners 5 (bundle_upd 5 (\<lambda>B. B\<lparr>b_serviceReferences := []\<rparr>) ?s1)))"
    using active by (simp add: BundleImpl_stop_def call exc un Let_def)
  have body: "OSGiImpl_stop_body scenario recording ''B'' ?s =
     Some (Inl ((newInstance ArrayIndexOutOfBoundsException True)\<lparr>handle_class := Exception\<rparr>),
       bundle_upd 5 (\<lambda>B. B\<lparr>b_state := RESOLVED\<rparr>)
         (unregisterListeners 5 (bundle_upd 5 (\<lambda>B. B\<lparr>b_serviceReferences := []\<rparr>) ?s1)))"
    unfolding OSGiImpl_stop_body_def found using stop by simp
  show ?thesis
    unfolding OSGiImpl_stop_def catch_Throwable_log_cases body
    by (simp add: Logging_error_def malformed_def two_bundles_def empty_registry_def)
qed

text \<open>The user code of the scenario returns.\<close>

lemma only_user_recording: "only_user recording"
  unfolding only_user_def recording_def by blast

lemma registerService_returns:
  assumes "only_user L"
  shows "\<exists>r s'. registerService L c serviceName service s = Some (r, s')"
proof -
  let ?s2 = "bundle_upd (c_bundle (contextAt s c))
     (\<lambda>B. B\<lparr>b_serviceReferences := b_serviceReferences B @ [allocated s]\<rparr>)
     (s\<lparr>allocated := allocated s + 1,
        referenceAt := (referenceAt s)(allocated s :=
          \<lparr>r_bundle = Some (c_bundle (contextAt s c)), r_serviceName = serviceName,
             r_service = service\<rparr>)\<rparr>)"
  from fireServiceEvent_only_user[OF assms,
      of "\<lparr>getType = REGISTERED, getServiceReference = allocated s\<rparr>" ?s2]
  obtain r u where "fireServiceEvent L \<lparr>getType = REGISTERED, getServiceReference = allocated s\<rparr> ?s2
      = Some (r, ?s2\<lparr>user := u\<rparr>)" by blast
  then show ?thesis by (cases r) (simp_all add: registerService_def Let_def)
qed

lemma subscribe_and_register_returns: "\<exists>r s'. subscribe_and_register ctx s = Some (r, s')"
proof (cases ctx)
  case None
  then show ?thesis by (simp add: subscribe_and_register_def)
next
  case (Some c)
  obtain s1 where add: "addServiceListener c (Some 9) (Some ''(objectClass=X)'') s = Some (Inr (), s1)"
    by (simp add: addServiceListener_def Let_def)
  from registerService_returns[OF only_user_recording, of c "''X''" "Some 42" s1]
  obtain r s2 where "registerService recording c ''X'' (Some 42) s1 = Some (r, s2)" by blast
  then show ?thesis using Some add by (cases r) (simp_all add: subscribe_and_register_def)
qed

lemma returning_scenario: "returning scenario"
proof -
  have "activator_start scenario a c s \<noteq> None" for a c s
    using subscribe_and_register_returns[of c s]
    by (auto simp: scenario_def split: sum.splits)
  moreover have "activator_stop scenario a c s \<noteq> None" for a c s
    by (cases c) (simp_all add: scenario_def removeServiceListener_def Let_def split: sum.splits)
  ultimately show ?thesis unfolding returning_def by blast
qed


section \<open>Lookup of a bundle by name\<close>

lemma extends_registry_refl [simp]: "extends_registry s s"
  by (simp add: extends_registry_def)

lemma extends_registry_trans:
  assumes "extends_registry s s'" and "extends_registry s' s''"
  shows "extends_registry s s''"
proof -
  from assms obtain xs ys where xs: "bundles s' = bundles s @ xs" and ys: "bundles s'' = bundles s' @ ys"
    unfolding extends_registry_def by blast
  have "\<exists>zs. bundles s'' = bundles s @ zs" using xs ys by simp
  moreover have "b_symbolicName (bundleAt s'' b) = b_symbolicName (bundleAt s b) \<and>
      b_activator (bundleAt s'' b) = b_activator (bundleAt s b)" if "b \<in> set (bundles s)" for b
  proof -
    from that xs have "b \<in> set (bundles s')" by simp
    with assms that show ?thesis unfolding extends_registry_def by simp
  qed
  ultimately show ?thesis unfolding extends_registry_def by blast
qed

lemma extends_registry_frame:
  assumes "bundles s' = bundles s"
    and "\<And>b. b_symbolicName (bundleAt s' b) = b_symbolicName (bundleAt s b)"
    and "\<And>b. b_activator (bundleAt s' b) = b_activator (bundleAt s b)"
  shows "extends_registry s s'"
  using assms by (simp add: extends_registry_def)

lemma fire_listeners_extends:
  assumes run: "fire_listeners L ev c b j s = Some y"
  shows "(\<forall>l e. keeps_bundles (L l e)) \<longrightarrow> extends_registry s (snd y)"
proof (rule fire_listeners.raw_induct
    [where P = "\<lambda>L ev c b j s y. (\<forall>l e. keeps_bundles (L l e)) \<longrightarrow> extends_registry s (snd y)",
     OF _ run], goal_cases)
  case (1 fire L ev c b j s y)
  show ?case
  proof
    assume L: "\<forall>l e. keeps_bundles (L l e)"
    show "extends_registry s (snd y)"
    proof (cases "j < length (b_serviceListenerFilters (bundleAt s b))")
      case False
      with 1(2) show ?thesis by auto
    next
      case j: True
      show ?thesis
      proof (cases "Some c = b_serviceListenerFilters (bundleAt s b) ! j")
        case False
        with 1(2) j have "fire L ev c b (j + 1) s = Some y" by simp
        from 1(1)[OF this] L show ?thesis by simp
      next
        case True
        show ?thesis
        proof (cases "FastTable_get (b_serviceListeners (bundleAt s b)) (int j)")
          case (Inl e)
          with 1(2) j True show ?thesis by auto
        next
          case (Inr sl)
          show ?thesis
          proof (cases sl)
            case None
            with 1(2) j True Inr show ?thesis by auto
          next
            case (Some l)
            with 1(2) j True Inr obtain r s1 where call: "L l ev s = Some (r, s1)"
              by (cases "L l ev s") auto
            from L call have k: "extends_registry s s1"
              unfolding keeps_bundles_def by blast
            show ?thesis
            proof (cases r)
              case (Inl e)
              with 1(2) j True \<open>FastTable_get (b_serviceListeners (bundleAt s b)) (int j) = Inr sl\<close>
                Some call k show ?thesis by auto
            next
              case (Inr u)
              with 1(2) j True \<open>FastTable_get (b_serviceListeners (bundleAt s b)) (int j) = Inr sl\<close>
                Some call have "fire L ev c b (j + 1) s1 = Some y" by simp
              from 1(1)[OF this] L have "extends_registry s1 (snd y)" by simp
              with k show ?thesis by (rule extends_registry_trans)
            qed
          qed
        qed
      qed
    qed
  qed
qed

lemma fire_bundles_extends:
  assumes run: "fire_bundles L ev c i s = Some y"
  shows "(\<forall>l e. keeps_bundles (L l e)) \<longrightarrow> extends_registry s (snd y)"
proof (rule fire_bundles.raw_induct
    [where P = "\<lambda>L ev c i s y. (\<forall>l e. keeps_bundles (L l e)) \<longrightarrow> extends_registry s (snd y)",
     OF _ run], goal_cases)
  case (1 fire L ev c i s y)
  show ?case
  proof
    assume L: "\<forall>l e. keeps_bundles (L l e)"
    show "extends_registry s (snd y)"
    proof (cases "i < length (bundles s)")
      case False
      with 1(2) show ?thesis by auto
    next
      case i: True
      with 1(2) obtain r s1 where inner: "fire_listeners L ev c (bundles s ! i) 0 s = Some (r, s1)"
        by (cases "fire_listeners L ev c (bundles s ! i) 0 s") auto
      from fire_listeners_extends[OF inner] L have k: "extends_registry s s1" by simp
      show ?thesis
      proof (cases r)
        case (Inl e)
        with 1(2) i inner k show ?thesis by auto
      next
        case (Inr u)
        with 1(2) i inner have "fire L ev c (i + 1) s1 = Some y" by simp
        from 1(1)[OF this] L have "extends_registry s1 (snd y)" by simp
        with k show ?thesis by (rule extends_registry_trans)
      qed
    qed
  qed
qed

lemma fireServiceEvent_extends:
  assumes "\<forall>l e. keeps_bundles (L l e)" and "fireServiceEvent L ev s = Some (r, s')"
  shows "extends_registry s s'"
  using fire_bundles_extends[of L ev _ 0 s "(r, s')"] assms
  by (simp add: fireServiceEvent_def Let_def)

lemma unregisterServices_loop_extends:
  assumes run: "unregisterServices_loop L this i s = Some y"
  shows "(\<forall>l e. keeps_bundles (L l e)) \<longrightarrow> extends_registry s (snd y)"
proof (rule unregisterServices_loop.raw_induct
    [where P = "\<lambda>L this i s y. (\<forall>l e. keeps_bundles (L l e)) \<longrightarrow> extends_registry s (snd y)",
     OF _ run], goal_cases)
  case (1 loop L this i s y)
  show ?case
  proof
    assume L: "\<forall>l e. keeps_bundles (L l e)"
    show "extends_registry s (snd y)"
    proof (cases "i < length (b_serviceReferences (bundleAt s this))")
      case False
      with 1(2) show ?thesis by auto
    next
      case i: True
      let ?r = "b_serviceReferences (bundleAt s this) ! i"
      let ?ev = "\<lparr>getType = UNREGISTERING, getServiceReference = ?r\<rparr>"
      from 1(2) i obtain r s1 where fire: "fireServiceEvent L ?ev s = Some (r, s1)"
        by (cases "fireServiceEvent L ?ev s") (auto simp: Let_def)
      from fireServiceEvent_extends[OF L fire] have k: "extends_registry s s1" .
      show ?thesis
      proof (cases r)
        case (Inl e)
        with 1(2) i fire k show ?thesis by (auto simp: Let_def)
      next
        case (Inr u)
        let ?s2 = "reference_upd ?r (\<lambda>R. R\<lparr>r_bundle := None\<rparr>) s1"
        from 1(2) i fire Inr have "loop L this (i + 1) ?s2 = Some y" by (simp add: Let_def)
        from 1(1)[OF this] L have "extends_registry ?s2 (snd y)" by simp
        moreover have "extends_registry s1 ?s2" by (rule extends_registry_frame) simp_all
        ultimately show ?thesis using k by (blast intro: extends_registry_trans)
      qed
    qed
  qed
qed

lemma unregisterServices_extends:
  assumes L: "\<forall>l e. keeps_bundles (L l e)" and un: "unregisterServices L this s = Some (r, s')"
  shows "extends_registry s s'"
proof -
  from un obtain r1 s1 where loop: "unregisterServices_loop L this 0 s = Some (r1, s1)"
    by (cases "unregisterServices_loop L this 0 s") (auto simp: unregisterServices_def)
  from unregisterServices_loop_extends[OF loop] L have k: "extends_registry s s1" by simp
  show ?thesis
  proof (cases r1)
    case (Inl e)
    with un loop k show ?thesis by (simp add: unregisterServices_def)
  next
    case (Inr u)
    with un loop have "s' = bundle_upd this (\<lambda>B. B\<lparr>b_serviceReferences := []\<rparr>) s1"
      by (simp add: unregisterServices_def)
    then have "extends_registry s1 s'" by (intro extends_registry_frame) simp_all
    with k show ?thesis by (rule extends_registry_trans)
  qed
qed

lemma call_start_extends:
  assumes A: "\<forall>a c. keeps_bundles (activator_start A a c)" and "call_start A this s = Some (r, s')"
  shows "extends_registry s s'"
  using assms unfolding call_start_def keeps_bundles_def
  by (cases "b_activator (bundleAt s this)") auto

lemma BundleImpl_start_extends:
  assumes L: "\<forall>l e. keeps_bundles (L l e)"
    and A: "\<forall>a c. keeps_bundles (activator_start A a c)"
    and start: "BundleImpl_start A L this s = Some (r, s')"
  shows "extends_registry s s'"
proof (cases "b_state (bundleAt s this) \<noteq> RESOLVED")
  case True
  with start show ?thesis by (simp add: BundleImpl_start_def)
next
  case False
  let ?s1 = "bundle_upd this (\<lambda>B. B\<lparr>b_state := STARTING\<rparr>) s"
  have k1: "extends_registry s ?s1" by (rule extends_registry_frame) simp_all
  from start False obtain r2 s2 where call: "call_start A this ?s1 = Some (r2, s2)"
    by (cases "call_start A this ?s1") (auto simp: BundleImpl_start_def Let_def)
  from call_start_extends[OF A call] k1 have k2: "extends_registry s s2"
    by (blast intro: extends_registry_trans)
  show ?thesis
  proof (cases r2)
    case (Inr u)
    with start False call have "s' = bundle_upd this (\<lambda>B. B\<lparr>b_state := ACTIVE\<rparr>) s2"
      by (simp add: BundleImpl_start_def Let_def)
    then have "extends_registry s2 s'" by (intro extends_registry_frame) simp_all
    with k2 show ?thesis by (rule extends_registry_trans)
  next
    case (Inl error)
    show ?thesis
    proof (cases "instanceOf (handle_class error) Exception")
      case False
      with start \<open>\<not> b_state (bundleAt s this) \<noteq> RESOLVED\<close> call Inl k2 show ?thesis
        by (simp add: BundleImpl_start_def Let_def)
    next
      case True
      let ?s3 = "bundle_upd this (\<lambda>B. B\<lparr>b_state := STOPPING\<rparr>) s2"
      have k3: "extends_registry s ?s3"
        by (rule extends_registry_trans[OF k2]) (rule extends_registry_frame, simp_all)
      from start \<open>\<not> b_state (bundleAt s this) \<noteq> RESOLVED\<close> call Inl True
      obtain r4 s4 where un: "unregisterServices L this ?s3 = Some (r4, s4)"
        by (cases "unregisterServices L this ?s3") (auto simp: BundleImpl_start_def Let_def)
      from unregisterServices_extends[OF L un] k3 have k4: "extends_registry s s4"
        by (blast intro: extends_registry_trans)
      show ?thesis
      proof (cases r4)
        case (Inl e)
        with start \<open>\<not> b_state (bundleAt s this) \<noteq> RESOLVED\<close> call \<open>r2 = Inl error\<close> True un k4
        show ?thesis by (simp add: BundleImpl_start_def Let_def)
      next
        case (Inr u)
        with start \<open>\<not> b_state (bundleAt s this) \<noteq> RESOLVED\<close> call \<open>r2 = Inl error\<close> True un
        have "s' = bundle_upd this (\<lambda>B. B\<lparr>b_context := None\<rparr>)
            (bundle_upd this (\<lambda>B. B\<lparr>b_state := RESOLVED\<rparr>) (unregisterListeners this s4))"
          by (simp add: BundleImpl_start_def Let_def)
        then have "extends_registry s4 s'" by (intro extends_registry_frame) simp_all
        with k4 show ?thesis by (rule extends_registry_trans)
      qed
    qed
  qed
qed

lemma find_bundle_member: "find_bundle h n xs = Some b \<Longrightarrow> b \<in> set xs"
  by (induction xs) (auto split: if_splits)

lemma find_bundle_append_new:
  assumes "b_symbolicName B = n"
  shows "find_bundle h n xs = None \<Longrightarrow> find_bundle (h(a := B)) n (xs @ [a]) = Some a"
  using assms by (induction xs) (auto split: if_splits)

lemma find_bundle_extended:
  assumes "\<forall>b \<in> set xs. b_symbolicName (h' b) = b_symbolicName (h b)"
  shows "find_bundle h n xs = Some b \<Longrightarrow> find_bundle h' n (xs @ ys) = Some b"
  using assms by (induction xs) (auto split: if_splits)

lemma getBundle_extends:
  assumes ext: "extends_registry s s'" and found: "getBundle n s = Some b"
  shows "getBundle n s' = Some b \<and> b_activator (bundleAt s' b) = b_activator (bundleAt s b)"
proof -
  from ext obtain ys where ys: "bundles s' = bundles s @ ys"
    and same: "\<forall>b \<in> set (bundles s). b_symbolicName (bundleAt s' b) = b_symbolicName (bundleAt s b)
        \<and> b_activator (bundleAt s' b) = b_activator (bundleAt s b)"
    unfolding extends_registry_def by blast
  from found have mem: "b \<in> set (bundles s)"
    unfolding getBundle_def by (rule find_bundle_member)
  from same have "\<forall>b \<in> set (bundles s). b_symbolicName (bundleAt s' b) = b_symbolicName (bundleAt s b)"
    by blast
  from find_bundle_extended[OF this, of n b ys] found
  have "getBundle n s' = Some b" by (simp add: getBundle_def ys)
  with same mem show ?thesis by blast
qed

text \<open>The bundle that \<open>OSGiImpl_API::start\<close> works on, and the state once it is in the table.\<close>

lemma OSGiImpl_start_body_extends:
  assumes L: "\<forall>l e. keeps_bundles (L l e)"
    and A: "\<forall>a c. keeps_bundles (activator_start A a c)"
    and body: "OSGiImpl_start_body A L n a s = Some (r, s')"
  shows "extends_registry
     (case getBundle n s of
        Some b \<Rightarrow> s
      | None \<Rightarrow> s\<lparr>allocated := allocated s + 1,
                  bundleAt := (bundleAt s)(allocated s := new_BundleImpl n a),
                  bundles := bundles s @ [allocated s]\<rparr>) s'"
proof -
  let ?s1 = "case getBundle n s of
        Some b \<Rightarrow> s
      | None \<Rightarrow> s\<lparr>allocated := allocated s + 1,
                  bundleAt := (bundleAt s)(allocated s := new_BundleImpl n a),
                  bundles := bundles s @ [allocated s]\<rparr>"
  let ?b = "case getBundle n s of Some b \<Rightarrow> b | None \<Rightarrow> allocated s"
  let ?s3 = "bundle_upd ?b (\<lambda>B. B\<lparr>b_context := Some (allocated ?s1)\<rparr>)
      (?s1\<lparr>allocated := allocated ?s1 + 1,
            contextAt := (contextAt ?s1)(allocated ?s1 := \<lparr>c_bundle = ?b\<rparr>)\<rparr>)"
  have start: "BundleImpl_start A L ?b ?s3 = Some (r, s')"
    using body by (cases "getBundle n s") (simp_all add: OSGiImpl_start_body_def Let_def)
  have "extends_registry ?s1 ?s3" by (rule extends_registry_frame) simp_all
  with BundleImpl_start_extends[OF L A start] show ?thesis
    by (blast intro: extends_registry_trans)
qed

lemma OSGiImpl_start_extends:
  assumes L: "\<forall>l e. keeps_bundles (L l e)"
    and A: "\<forall>a c. keeps_bundles (activator_start A a c)"
    and start: "OSGiImpl_start A L n a s = Some (Printed (r, s'))"
  shows "extends_registry
     (case getBundle n s of
        Some b \<Rightarrow> s
      | None \<Rightarrow> s\<lparr>allocated := allocated s + 1,
                  bundleAt := (bundleAt s)(allocated s := new_BundleImpl n a),
                  bundles := bundles s @ [allocated s]\<rparr>) s'"
proof -
  from start obtain r1 s1 where body: "OSGiImpl_start_body A L n a s = Some (r1, s1)"
    by (cases "OSGiImpl_start_body A L n a s")
       (auto simp: OSGiImpl_start_def catch_Throwable_log_cases)
  from start body have "s' = s1 \<or> (\<exists>e. s' = s1\<lparr>logged := logged s1 @ [e]\<rparr>)"
    by (cases r1)
       (auto simp: OSGiImpl_start_def catch_Throwable_log_cases Logging_error_def
          split: if_splits)
  then have "extends_registry s1 s'" by (auto intro: extends_registry_frame)
  with OSGiImpl_start_body_extends[OF L A body] show ?thesis
    by (blast intro: extends_registry_trans)
qed

lemma OSGiImpl_start_found:
  assumes L: "\<forall>l e. keeps_bundles (L l e)"
    and A: "\<forall>a c. keeps_bundles (activator_start A a c)"
    and start: "OSGiImpl_start A L n a s = Some (Printed (r, s'))"
  shows "case getBundle n s of
           Some b \<Rightarrow> getBundle n s' = Some b
             \<and> b_activator (bundleAt s' b) = b_activator (bundleAt s b)
         | None \<Rightarrow> getBundle n s' = Some (allocated s)
             \<and> b_activator (bundleAt s' (allocated s)) = a"
proof (cases "getBundle n s")
  case (Some b)
  with OSGiImpl_start_extends[OF L A start] have "extends_registry s s'" by simp
  from getBundle_extends[OF this Some] Some show ?thesis by simp
next
  case None
  let ?s1 = "s\<lparr>allocated := allocated s + 1,
                bundleAt := (bundleAt s)(allocated s := new_BundleImpl n a),
                bundles := bundles s @ [allocated s]\<rparr>"
  from None OSGiImpl_start_extends[OF L A start] have ext: "extends_registry ?s1 s'" by simp
  have "b_symbolicName (new_BundleImpl n a) = n" by (simp add: new_BundleImpl_def)
  from find_bundle_append_new[OF this, of "bundleAt s" "bundles s" "allocated s"] None
  have found: "getBundle n ?s1 = Some (allocated s)" by (simp add: getBundle_def)
  from getBundle_extends[OF ext found] None show ?thesis by (simp add: new_BundleImpl_def)
qed

lemma starts_found:
  assumes L: "\<forall>l e. keeps_bundles (L l e)"
    and A: "\<forall>a c. keeps_bundles (activator_start A a c)"
  shows "getBundle n s = Some b \<Longrightarrow> starts A L n acts s = Some s' \<Longrightarrow>
     getBundle n s' = Some b \<and> b_activator (bundleAt s' b) = b_activator (bundleAt s b)"
proof (induction acts arbitrary: s)
  case Nil
  then show ?case by simp
next
  case (Cons a acts)
  from Cons.prems(2) obtain r s1 where first: "OSGiImpl_start A L n a s = Some (Printed (r, s1))"
    and rest: "starts A L n acts s1 = Some s'"
    by (cases "OSGiImpl_start A L n a s") (auto split: printed.splits)
  from OSGiImpl_start_found[OF L A first] Cons.prems(1)
  have found: "getBundle n s1 = Some b"
    and act: "b_activator (bundleAt s1 b) = b_activator (bundleAt s b)" by simp_all
  from Cons.IH[OF found rest] act show ?case by simp
qed

text \<open>
  C7. Let the user code keep the bundle table: a call of a listener or of an activator's
  start hook may append bundles, and leaves every bundle already in the table there with
  its symbolic name and its activator. Then after a call of \<open>Registry.start\<close> with a
  symbolic name, whether it returns or throws, \<open>getBundle\<close> finds a bundle under that
  name; when one was found before
  the call it is the same object, with the activator it had (the activator argument is
  ignored); and after any further sequence of \<open>Registry.start\<close> calls with that name and
  arbitrary activator arguments, \<open>getBundle\<close> still returns that same object, with the
  same activator.
\<close>

theorem getBundle_identity:
  assumes L: "\<forall>l e. keeps_bundles (L l e)"
    and A: "\<forall>a c. keeps_bundles (activator_start A a c)"
    and first: "OSGiImpl_start A L n a s = Some (Printed (r, s1))"
  shows "\<exists>b. getBundle n s1 = Some b
     \<and> (\<forall>b0. getBundle n s = Some b0 \<longrightarrow>
           b = b0 \<and> b_activator (bundleAt s1 b) = b_activator (bundleAt s b))
     \<and> (\<forall>acts s2. starts A L n acts s1 = Some s2 \<longrightarrow>
           getBundle n s2 = Some b
           \<and> b_activator (bundleAt s2 b) = b_activator (bundleAt s1 b))"
proof -
  from OSGiImpl_start_found[OF L A first]
  obtain b where found: "getBundle n s1 = Some b"
    and reuse: "\<forall>b0. getBundle n s = Some b0 \<longrightarrow>
        b = b0 \<and> b_activator (bundleAt s1 b) = b_activator (bundleAt s b)"
    by (cases "getBundle n s") auto
  from starts_found[OF L A found] found reuse show ?thesis by blast
qed

text \<open>
  When the user code returns and what it throws is well formed, every call of
  \<open>Registry.start\<close> leaves a state behind.
\<close>

lemma framework_throws_well_formed: "framework_throws well_formed"
  by (simp add: framework_throws_def well_formed_def)

lemma OSGiImpl_start_returns:
  assumes "returning A" and "only_user L"
    and L: "\<forall>l e. throws_only well_formed (L l e)"
    and A: "\<forall>a c. throws_only well_formed (activator_start A a c)"
  shows "\<exists>r s'. OSGiImpl_start A L n a s = Some (Printed (r, s'))"
proof -
  from OSGiImpl_start_body_returns[OF assms(1,2), of n a s]
  obtain r1 s1 where body: "OSGiImpl_start_body A L n a s = Some (r1, s1)" by blast
  show ?thesis
  proof (cases r1)
    case (Inr u)
    with body show ?thesis by (simp add: OSGiImpl_start_def catch_Throwable_log_cases)
  next
    case (Inl e)
    with OSGiImpl_start_body_throws[OF framework_throws_well_formed L A] body
    have "\<not> malformed (object_class e)" unfolding well_formed_def by blast
    with body Inl show ?thesis
      by (simp add: OSGiImpl_start_def catch_Throwable_log_cases Logging_error_def)
  qed
qed

lemma starts_returns:
  assumes "returning A" and "only_user L"
    and "\<forall>l e. throws_only well_formed (L l e)"
    and "\<forall>a c. throws_only well_formed (activator_start A a c)"
  shows "\<exists>s'. starts A L n acts s = Some s'"
proof (induction acts arbitrary: s)
  case Nil
  show ?case by simp
next
  case (Cons a acts)
  from OSGiImpl_start_returns[OF assms, of n a s]
  obtain r s1 where "OSGiImpl_start A L n a s = Some (Printed (r, s1))" by blast
  with Cons.IH[of s1] show ?case by simp
qed

lemma keeps_bundles_recording: "keeps_bundles (recording l e)"
  unfolding keeps_bundles_def recording_def by (auto intro: extends_registry_frame)

lemma addServiceListener_extends: "keeps_bundles (addServiceListener c sl flt)"
  unfolding keeps_bundles_def addServiceListener_def Let_def
  by (auto intro!: extends_registry_frame)

lemma registerService_extends:
  assumes L: "\<forall>l e. keeps_bundles (L l e)"
  shows "keeps_bundles (registerService L c serviceName service)"
  unfolding keeps_bundles_def
proof (intro allI impI)
  fix s r s'
  assume run: "registerService L c serviceName service s = Some (r, s')"
  let ?s2 = "bundle_upd (c_bundle (contextAt s c))
     (\<lambda>B. B\<lparr>b_serviceReferences := b_serviceReferences B @ [allocated s]\<rparr>)
     (s\<lparr>allocated := allocated s + 1,
        referenceAt := (referenceAt s)(allocated s :=
          \<lparr>r_bundle = Some (c_bundle (contextAt s c)), r_serviceName = serviceName,
             r_service = service\<rparr>)\<rparr>)"
  let ?ev = "\<lparr>getType = REGISTERED, getServiceReference = allocated s\<rparr>"
  from run obtain r1 where fire: "fireServiceEvent L ?ev ?s2 = Some (r1, s')"
    by (cases "fireServiceEvent L ?ev ?s2")
       (auto simp: registerService_def Let_def split: sum.splits)
  have "extends_registry s ?s2" by (rule extends_registry_frame) simp_all
  with fireServiceEvent_extends[OF L fire] show "extends_registry s s'"
    by (blast intro: extends_registry_trans)
qed

lemma keeps_bundles_subscribe_and_register: "keeps_bundles (subscribe_and_register ctx)"
  unfolding keeps_bundles_def
proof (intro allI impI)
  fix s r s'
  assume run: "subscribe_and_register ctx s = Some (r, s')"
  show "extends_registry s s'"
  proof (cases ctx)
    case None
    with run show ?thesis by (simp add: subscribe_and_register_def)
  next
    case (Some c)
    obtain s1 where add: "addServiceListener c (Some 9) (Some ''(objectClass=X)'') s = Some (Inr (), s1)"
      by (simp add: addServiceListener_def Let_def)
    with addServiceListener_extends have k1: "extends_registry s s1"
      unfolding keeps_bundles_def by blast
    from run Some add obtain r2 where reg: "registerService recording c ''X'' (Some 42) s1 = Some (r2, s')"
      by (cases "registerService recording c ''X'' (Some 42) s1")
         (auto simp: subscribe_and_register_def split: sum.splits)
    from registerService_extends[of recording c "''X''" "Some 42"] keeps_bundles_recording reg
    have "extends_registry s1 s'" unfolding keeps_bundles_def by blast
    with k1 show ?thesis by (rule extends_registry_trans)
  qed
qed

lemma keeps_bundles_scenario: "keeps_bundles (activator_start scenario a c)"
  using keeps_bundles_subscribe_and_register[of c]
  unfolding keeps_bundles_def scenario_def
  by (auto split: option.splits sum.splits if_splits)

lemma recording_throws: "throws_only Q (recording l e)"
  unfolding throws_only_def recording_def by simp

lemma registerService_throws:
  assumes Q: "framework_throws Q" and L: "\<forall>l e. throws_only Q (L l e)"
  shows "throws_only Q (registerService L c serviceName service)"
  unfolding throws_only_def
proof (intro allI impI)
  fix s e s'
  assume run: "registerService L c serviceName service s = Some (Inl e, s')"
  let ?s2 = "bundle_upd (c_bundle (contextAt s c))
     (\<lambda>B. B\<lparr>b_serviceReferences := b_serviceReferences B @ [allocated s]\<rparr>)
     (s\<lparr>allocated := allocated s + 1,
        referenceAt := (referenceAt s)(allocated s :=
          \<lparr>r_bundle = Some (c_bundle (contextAt s c)), r_serviceName = serviceName,
             r_service = service\<rparr>)\<rparr>)"
  let ?ev = "\<lparr>getType = REGISTERED, getServiceReference = allocated s\<rparr>"
  from run have "fireServiceEvent L ?ev ?s2 = Some (Inl e, s')"
    by (cases "fireServiceEvent L ?ev ?s2")
       (auto simp: registerService_def Let_def split: sum.splits)
  with fireServiceEvent_throws[OF Q L] show "Q e" by blast
qed

lemma scenario_throws_well_formed: "throws_only well_formed (activator_start scenario a c)"
proof -
  have reg: "throws_only well_formed (registerService recording x ''X'' (Some 42))" for x
    by (rule registerService_throws[OF framework_throws_well_formed]) (simp add: recording_throws)
  have sub: "well_formed e" if "subscribe_and_register c s = Some (Inl e, s')" for s e s'
  proof (cases c)
    case None
    with that show ?thesis by (auto simp: subscribe_and_register_def well_formed_def)
  next
    case (Some x)
    obtain s1 where add: "addServiceListener x (Some 9) (Some ''(objectClass=X)'') s = Some (Inr (), s1)"
      by (simp add: addServiceListener_def Let_def)
    from that Some add have "registerService recording x ''X'' (Some 42) s1 = Some (Inl e, s')"
      by (cases "registerService recording x ''X'' (Some 42) s1")
         (auto simp: subscribe_and_register_def split: sum.splits)
    with reg show ?thesis unfolding throws_only_def by blast
  qed
  show ?thesis
    unfolding throws_only_def
  proof (intro allI impI)
    fix s e s'
    assume "activator_start scenario a c s = Some (Inl e, s')"
    then have "(\<exists>s1. subscribe_and_register c s = Some (Inl e, s1))
        \<or> e = newInstance RuntimeException True \<or> e = newInstance Error False"
      by (auto simp: scenario_def split: if_splits option.splits sum.splits)
    with sub show "well_formed e" by (auto simp: well_formed_def)
  qed
qed

lemma first_start_returns:
  "\<exists>s1. OSGiImpl_start scenario recording ''A'' (Some 1) empty_registry = Some (Printed (Inr (), s1))"
proof -
  from start_RuntimeException obtain s' where
    "BundleImpl_start scenario recording 0 (resolved_A 1) =
       Some (Inl (newInstance Exception True), s')" by blast
  then show ?thesis
    unfolding OSGiImpl_start_def catch_Throwable_log_cases start_body_empty_registry
    by (simp add: Logging_error_printable)
qed

theorem getBundle_identity_witness:
  "\<exists>s1 s2. OSGiImpl_start scenario recording ''A'' (Some 1) empty_registry =
       Some (Printed (Inr (), s1))
     \<and> starts scenario recording ''A'' [Some 3, None, Some 2] s1 = Some s2
     \<and> getBundle ''A'' s1 = Some 0
     \<and> getBundle ''A'' s2 = Some 0
     \<and> b_activator (bundleAt s2 0) = Some 1"
proof -
  have L: "\<forall>l e. keeps_bundles (recording l e)" by (simp add: keeps_bundles_recording)
  have A: "\<forall>a c. keeps_bundles (activator_start scenario a c)" by (simp add: keeps_bundles_scenario)
  from first_start_returns
  obtain s1 where first: "OSGiImpl_start scenario recording ''A'' (Some 1) empty_registry =
      Some (Printed (Inr (), s1))"
    by blast
  from starts_returns[OF returning_scenario only_user_recording]
    recording_throws scenario_throws_well_formed
  obtain s2 where rest: "starts scenario recording ''A'' [Some 3, None, Some 2] s1 = Some s2"
    by blast
  have none: "getBundle ''A'' empty_registry = None"
    by (simp add: getBundle_def empty_registry_def)
  have zero: "allocated empty_registry = 0" by (simp add: empty_registry_def)
  from OSGiImpl_start_found[OF L A first] none zero
  have new: "getBundle ''A'' s1 = Some 0" "b_activator (bundleAt s1 0) = Some 1" by simp_all
  from getBundle_identity[OF L A first]
  obtain b where b: "getBundle ''A'' s1 = Some b"
    and later: "\<forall>acts s2. starts scenario recording ''A'' acts s1 = Some s2 \<longrightarrow>
           getBundle ''A'' s2 = Some b
           \<and> b_activator (bundleAt s2 b) = b_activator (bundleAt s1 b)"
    by blast
  from b new have "b = 0" by simp
  with later rest new
  have "getBundle ''A'' s2 = Some 0 \<and> b_activator (bundleAt s2 0) = Some 1" by metis
  with first rest new show ?thesis by blast
qed

end
